theory Spec2Isabelle
  imports Main
begin

section \<open>Arguments of a memoized function and their keys\<close>

text \<open>
  \<^verbatim>\<open>export type SimpleArgs = (string | number | boolean | undefined)[];\<close>

  A JavaScript number is a double. The model keeps the three non-finite doubles and the
  integral finite ones up to \<open>2 ^ 53\<close> in size, which \<^verbatim>\<open>Number.prototype.toString\<close> prints
  as plain decimal digits; fractions, larger integers and exponent notation are not
  modelled. A string is a list of 8-bit characters.
\<close>

datatype number = NaN | PosInfinity | NegInfinity | Integral int

datatype simple = JString string | JNumber number | JBoolean bool | JUndefined

type_synonym SimpleArgs = "simple list"

subsection \<open>\<^verbatim>\<open>JSON.stringify\<close> on an array of primitives\<close>

definition digit_char :: "nat \<Rightarrow> char" where
  "digit_char d = (if d < 16 then ''0123456789abcdef'' ! d else CHR ''?'')"

function decimal :: "nat \<Rightarrow> string" where
  "decimal n = (if n < 10 then [digit_char n] else decimal (n div 10) @ [digit_char (n mod 10)])"
  by pat_completeness auto
termination
  by (relation "measure (\<lambda>n. n)") auto

declare decimal.simps [simp del]

text \<open>\<^verbatim>\<open>Number::toString\<close> on the integral doubles of the model.\<close>

definition Number_toString :: "int \<Rightarrow> string" where
  "Number_toString i = (if i < 0 then CHR ''-'' # decimal (nat (- i)) else decimal (nat i))"

text \<open>
  \<^verbatim>\<open>QuoteJSONString\<close>: the quotation mark and the backslash are escaped, the control
  characters get their short escape or \<^verbatim>\<open>\u00XX\<close>, every other character stands for
  itself.
\<close>

definition quote_char :: "char \<Rightarrow> string" where
  "quote_char c =
     (let n = (of_char c :: nat) in
      if n = 0x08 then [CHR 0x5C, CHR ''b'']
      else if n = 0x09 then [CHR 0x5C, CHR ''t'']
      else if n = 0x0A then [CHR 0x5C, CHR ''n'']
      else if n = 0x0C then [CHR 0x5C, CHR ''f'']
      else if n = 0x0D then [CHR 0x5C, CHR ''r'']
      else if n = 0x22 then [CHR 0x5C, CHR 0x22]
      else if n = 0x5C then [CHR 0x5C, CHR 0x5C]
      else if n < 0x20 then
        [CHR 0x5C, CHR ''u'', CHR ''0'', CHR ''0'', digit_char (n div 16), digit_char (n mod 16)]
      else [c])"

definition QuoteJSONString :: "string \<Rightarrow> string" where
  "QuoteJSONString s = CHR 0x22 # concat (map quote_char s) @ [CHR 0x22]"

text \<open>
  An array element: a non-finite number and \<^verbatim>\<open>undefined\<close> are both written
  \<^verbatim>\<open>null\<close>.
\<close>

fun SerializeJSONElement :: "simple \<Rightarrow> string" where
  "SerializeJSONElement (JString s) = QuoteJSONString s"
| "SerializeJSONElement (JNumber (Integral i)) = Number_toString i"
| "SerializeJSONElement (JNumber _) = ''null''"
| "SerializeJSONElement (JBoolean b) = (if b then ''true'' else ''false'')"
| "SerializeJSONElement JUndefined = ''null''"

fun join :: "string \<Rightarrow> string list \<Rightarrow> string" where
  "join sep [] = []"
| "join sep [x] = x"
| "join sep (x # y # ys) = x @ sep @ join sep (y # ys)"

definition JSON_stringify :: "SimpleArgs \<Rightarrow> string" where
  "JSON_stringify args = ''['' @ join '','' (map SerializeJSONElement args) @ '']''"

section \<open>The JavaScript \<^verbatim>\<open>Map\<close>: entries in insertion order\<close>

text \<open>
  A \<^verbatim>\<open>Map\<close> iterates in insertion order; \<^verbatim>\<open>set\<close> on a key that is present
  replaces the value where the entry stands, \<^verbatim>\<open>set\<close> on a new key appends.
\<close>

type_synonym ('k, 'v) Map = "('k \<times> 'v) list"

fun Map_get :: "('k, 'v) Map \<Rightarrow> 'k \<Rightarrow> 'v option" where
  "Map_get [] k = None"
| "Map_get ((k', v) # m) k = (if k' = k then Some v else Map_get m k)"

definition Map_has :: "('k, 'v) Map \<Rightarrow> 'k \<Rightarrow> bool" where
  "Map_has m k = (Map_get m k \<noteq> None)"

fun Map_set :: "('k, 'v) Map \<Rightarrow> 'k \<Rightarrow> 'v \<Rightarrow> ('k, 'v) Map" where
  "Map_set [] k v = [(k, v)]"
| "Map_set ((k', v') # m) k v = (if k' = k then (k, v) # m else (k', v') # Map_set m k v)"

fun Map_delete :: "('k, 'v) Map \<Rightarrow> 'k \<Rightarrow> ('k, 'v) Map" where
  "Map_delete [] k = []"
| "Map_delete ((k', v) # m) k = (if k' = k then Map_delete m k else (k', v) # Map_delete m k)"

definition Map_keys :: "('k, 'v) Map \<Rightarrow> 'k list" where
  "Map_keys m = map fst m"

definition Map_size :: "('k, 'v) Map \<Rightarrow> nat" where
  "Map_size m = length m"

section \<open>The memoizer\<close>

text \<open>
  \<^verbatim>\<open>options: { ttl: number; size: number }\<close>, both taken as integers: seconds and a
  count of entries. The field \<^verbatim>\<open>size\<close> is \<open>size_opt\<close> here.
\<close>

record options =
  ttl :: int
  size_opt :: int

text \<open>A cache entry \<^verbatim>\<open>{ value, expiry }\<close>; time is in milliseconds, as a \<^verbatim>\<open>Date\<close> compares.\<close>

record 'r entry =
  entry_value :: 'r
  entry_expiry :: int

text \<open>
  What a promise of \<^verbatim>\<open>memoized\<close> settles with. \<^verbatim>\<open>Error msg\<close> is the
  \<^verbatim>\<open>new Error(msg)\<close> of the arity check, \<^verbatim>\<open>Thrown e\<close> a value \<^verbatim>\<open>f\<close> failed with.
\<close>

datatype 'e reason = Error string | Thrown 'e

datatype ('r, 'e) settlement = Resolved 'r | Rejected 'e

text \<open>
  The closure of one memoizer: \<^verbatim>\<open>options\<close>, \<^verbatim>\<open>maxSize\<close>, \<^verbatim>\<open>f.length\<close>, the two maps
  \<^verbatim>\<open>cache\<close> and \<^verbatim>\<open>queue\<close>, and the part of the run-time the statements below speak about:
  \<^item> \<open>promises\<close>: how many promises \<^verbatim>\<open>memoized\<close> has returned; the next call returns
    promise number \<open>promises\<close>;
  \<^item> \<open>settled\<close>: the promises that are settled, with their outcome;
  \<^item> \<open>awaiting\<close>: the leaders suspended at \<^verbatim>\<open>await f(...args)\<close>, with their \<^verbatim>\<open>key\<close>;
  \<^item> \<open>invoked\<close>: the argument lists \<^verbatim>\<open>f\<close> has been invoked with, in order;
  \<^item> \<open>journal\<close>: every write to one of the two maps and every settlement of a promise,
    in the order the statements are executed.
  A handler \<^verbatim>\<open>{ resolve, reject }\<close> in \<^verbatim>\<open>queue\<close> is the number of the promise it settles.
\<close>

datatype effect =
    Cache_set string
  | Cache_delete string
  | Cache_clear
  | Queue_set string
  | Queue_push string nat
  | Queue_delete string
  | Settle nat

record ('r, 'e) memo =
  opts :: options
  maxSize :: int
  f_length :: nat
  cache :: "(string, 'r entry) Map"
  queue :: "(string, nat list) Map"
  promises :: nat
  settled :: "nat \<Rightarrow> ('r, 'e reason) settlement option"
  awaiting :: "nat \<Rightarrow> string option"
  invoked :: "SimpleArgs list"
  journal :: "effect list"

text \<open>
  \<^verbatim>\<open>memoize_async(options, f)\<close> creates the two empty maps and reads \<^verbatim>\<open>options.size\<close>;
  its body has no check and no \<^verbatim>\<open>throw\<close>, so it always returns (\<open>Inr\<close>).
\<close>

definition closure :: "options \<Rightarrow> nat \<Rightarrow> ('r, 'e) memo" where
  "closure options n =
     \<lparr>opts = options, maxSize = size_opt options, f_length = n, cache = [], queue = [],
      promises = 0, settled = (\<lambda>_. None), awaiting = (\<lambda>_. None), invoked = [],
      journal = []\<rparr>"

definition memoize_async :: "options \<Rightarrow> nat \<Rightarrow> string + ('r, 'e) memo" where
  "memoize_async options n = Inr (closure options n)"

text \<open>Settling a promise: only the first settlement counts.\<close>

definition settle :: "nat \<Rightarrow> ('r, 'e reason) settlement \<Rightarrow> ('r, 'e) memo \<Rightarrow> ('r, 'e) memo" where
  "settle p out st =
     (if settled st p = None
      then st\<lparr>settled := (settled st)(p \<mapsto> out), journal := journal st @ [Settle p]\<rparr>
      else st\<lparr>journal := journal st @ [Settle p]\<rparr>)"

text \<open>The loops \<^verbatim>\<open>for (const { resolve } of handlers)\<close> and \<^verbatim>\<open>for (const { reject } of handlers)\<close>.\<close>

fun settle_all :: "nat list \<Rightarrow> ('r, 'e reason) settlement \<Rightarrow> ('r, 'e) memo \<Rightarrow> ('r, 'e) memo" where
  "settle_all [] out st = st"
| "settle_all (h # hs) out st = settle_all hs out (settle h out st)"

definition InvalidArity :: "nat \<Rightarrow> nat \<Rightarrow> 'e reason" where
  "InvalidArity given declared =
     Error (''Invalid number of arguments passed ('' @ decimal given @ '' != '' @ decimal declared
            @ '') or used spread operator'')"

text \<open>\<^verbatim>\<open>entry && entry.expiry > new Date()\<close>\<close>

definition fresh :: "'r entry \<Rightarrow> int \<Rightarrow> bool" where
  "fresh entry now = (entry_expiry entry > now)"

text \<open>
  A call \<^verbatim>\<open>memoized(...args)\<close> at time \<open>now\<close>, up to its \<^verbatim>\<open>return\<close> or its
  \<^verbatim>\<open>await\<close>: JavaScript runs this stretch without interruption. The result is the number
  of the returned promise and the new state. \<open>lookup\<close> is the cache check, \<open>enqueue\<close> the
  \<^verbatim>\<open>queue.get(key)?.push({ resolve, reject })\<close> of a waiter, \<open>lead\<close> the
  \<^verbatim>\<open>queue.set(key, [])\<close> and the invocation of \<^verbatim>\<open>f\<close> by a leader.
\<close>

definition lookup :: "('r, 'e) memo \<Rightarrow> string \<Rightarrow> int \<Rightarrow> 'r option" where
  "lookup st key now =
     (case Map_get (cache st) key of
        None \<Rightarrow> None
      | Some entry \<Rightarrow> if fresh entry now then Some (entry_value entry) else None)"

definition enqueue :: "string \<Rightarrow> nat \<Rightarrow> ('r, 'e) memo \<Rightarrow> ('r, 'e) memo" where
  "enqueue key p st =
     (case Map_get (queue st) key of
        None \<Rightarrow> st
      | Some handlers \<Rightarrow>
          st\<lparr>queue := Map_set (queue st) key (handlers @ [p]),
             journal := journal st @ [Queue_push key p]\<rparr>)"

definition lead :: "string \<Rightarrow> SimpleArgs \<Rightarrow> nat \<Rightarrow> ('r, 'e) memo \<Rightarrow> ('r, 'e) memo" where
  "lead key args p st =
     st\<lparr>queue := Map_set (queue st) key [],
        invoked := invoked st @ [args],
        awaiting := (awaiting st)(p \<mapsto> key),
        journal := journal st @ [Queue_set key]\<rparr>"

text \<open>The promise an \<^verbatim>\<open>async function\<close> returns is a new one, and pending.\<close>

definition new_promise :: "('r, 'e) memo \<Rightarrow> nat \<times> ('r, 'e) memo" where
  "new_promise st =
     (promises st, st\<lparr>promises := Suc (promises st), settled := (settled st)(promises st := None)\<rparr>)"

definition memoized :: "SimpleArgs \<Rightarrow> int \<Rightarrow> ('r, 'e) memo \<Rightarrow> nat \<times> ('r, 'e) memo" where
  "memoized args now st =
     (let (p, st) = new_promise st
      in if f_length st \<noteq> length args then
           (p, settle p (Rejected (InvalidArity (length args) (f_length st))) st)
         else
           let key = JSON_stringify args in
           (case lookup st key now of
              Some v \<Rightarrow> (p, settle p (Resolved v) st)
            | None \<Rightarrow>
                if Map_has (queue st) key then (p, enqueue key p st)
                else (p, lead key args p st)))"

text \<open>
  The rest of a leader's call, run when the promise of \<^verbatim>\<open>f\<close> settles at time \<open>now\<close>:
  the \<^verbatim>\<open>try\<close> block after the \<^verbatim>\<open>await\<close> on success, the \<^verbatim>\<open>catch\<close> block on failure.
\<close>

text \<open>
  \<open>evict\<close> is the capacity check with its \<^verbatim>\<open>cache.delete(oldestKey)\<close> (deleting the
  \<^verbatim>\<open>undefined\<close> first key of an empty cache does nothing), \<open>evicted\<close> what that
  writes to the journal; \<open>store\<close> adds the
  \<^verbatim>\<open>cache.set\<close>. Its expiry is the current time moved by \<^verbatim>\<open>ttl\<close> seconds: that is
  what \<^verbatim>\<open>expiry.setSeconds(expiry.getSeconds() + options.ttl)\<close> gives in a zone whose
  offset never changes, while the date stays in range (\<open>expiry_date\<close> below gives the two
  lines in any zone). The runs of the memoizer are taken in such a zone.
\<close>

definition evict :: "int \<Rightarrow> (string, 'r entry) Map \<Rightarrow> (string, 'r entry) Map" where
  "evict max_size c =
     (if int (Map_size c) \<ge> max_size then
        (case Map_keys c of [] \<Rightarrow> c | oldestKey # _ \<Rightarrow> Map_delete c oldestKey)
      else c)"

definition evicted :: "int \<Rightarrow> (string, 'r entry) Map \<Rightarrow> effect list" where
  "evicted max_size c =
     (if int (Map_size c) \<ge> max_size then
        (case Map_keys c of [] \<Rightarrow> [] | oldestKey # _ \<Rightarrow> [Cache_delete oldestKey])
      else [])"

definition store :: "string \<Rightarrow> 'r \<Rightarrow> int \<Rightarrow> ('r, 'e) memo \<Rightarrow> ('r, 'e) memo" where
  "store key result now st =
     (let c = evict (maxSize st) (cache st);
          expiry = now + 1000 * ttl (opts st)
      in st\<lparr>cache := Map_set c key \<lparr>entry_value = result, entry_expiry = expiry\<rparr>,
            journal := journal st @ evicted (maxSize st) (cache st) @ [Cache_set key]\<rparr>)"

definition take_handlers :: "string \<Rightarrow> ('r, 'e) memo \<Rightarrow> nat list option \<times> ('r, 'e) memo" where
  "take_handlers key st =
     (Map_get (queue st) key,
      st\<lparr>queue := Map_delete (queue st) key, journal := journal st @ [Queue_delete key]\<rparr>)"

definition notify :: "nat list option \<Rightarrow> ('r, 'e reason) settlement \<Rightarrow> ('r, 'e) memo \<Rightarrow> ('r, 'e) memo" where
  "notify handlers out st = (case handlers of None \<Rightarrow> st | Some hs \<Rightarrow> settle_all hs out st)"

text \<open>
  Lines 73 to 86, from the capacity check to \<^verbatim>\<open>queue.delete(key)\<close>: the handlers read from
  the queue and the state in which the loop over them starts.
\<close>

definition succeeded :: "string \<Rightarrow> 'r \<Rightarrow> int \<Rightarrow> ('r, 'e) memo \<Rightarrow> nat list option \<times> ('r, 'e) memo" where
  "succeeded key result now st = take_handlers key (store key result now st)"

definition resumed :: "nat \<Rightarrow> ('r, 'e) settlement \<Rightarrow> int \<Rightarrow> ('r, 'e) memo \<Rightarrow> ('r, 'e) memo" where
  "resumed p outcome now st =
     (case awaiting st p of
        None \<Rightarrow> st
      | Some key \<Rightarrow>
          let st = st\<lparr>awaiting := (awaiting st)(p := None)\<rparr> in
          (case outcome of
             Resolved result \<Rightarrow>
               let (handlers, st) = succeeded key result now st;
                   st = notify handlers (Resolved result) st
               in settle p (Resolved result) st
           | Rejected err \<Rightarrow>
               let (handlers, st) = take_handlers key st;
                   st = notify handlers (Rejected (Thrown err)) st
               in settle p (Rejected (Thrown err)) st))"

definition cache_size :: "('r, 'e) memo \<Rightarrow> nat" where
  "cache_size st = Map_size (cache st)"

definition clear_cache :: "('r, 'e) memo \<Rightarrow> ('r, 'e) memo" where
  "clear_cache st = st\<lparr>cache := [], journal := journal st @ [Cache_clear]\<rparr>"

section \<open>The \<^verbatim>\<open>Date\<close> arithmetic of the expiry\<close>

text \<open>
  \<^verbatim>\<open>const expiry = new Date(); expiry.setSeconds(expiry.getSeconds() + options.ttl);\<close>

  \<^verbatim>\<open>getSeconds\<close> and \<^verbatim>\<open>setSeconds\<close> work on the fields of the local time. A zone gives
  the offset of local time in milliseconds, at a time value (\<^verbatim>\<open>LocalTZA(t, true)\<close>) and at
  a local time (\<^verbatim>\<open>LocalTZA(t, false)\<close>); the functions are those of ECMA-262, on integers.
  \<open>None\<close> is the time value \<^verbatim>\<open>NaN\<close> of an invalid date, which no comparison finds later
  than any time.
\<close>

record zone =
  tza_of_utc :: "int \<Rightarrow> int"
  tza_of_local :: "int \<Rightarrow> int"

definition LocalTime :: "zone \<Rightarrow> int \<Rightarrow> int" where
  "LocalTime z t = t + tza_of_utc z t"

definition UTC :: "zone \<Rightarrow> int \<Rightarrow> int" where
  "UTC z t = t - tza_of_local z t"

definition Day :: "int \<Rightarrow> int" where
  "Day t = t div 86400000"

definition HourFromTime :: "int \<Rightarrow> int" where
  "HourFromTime t = (t div 3600000) mod 24"

definition MinFromTime :: "int \<Rightarrow> int" where
  "MinFromTime t = (t div 60000) mod 60"

definition SecFromTime :: "int \<Rightarrow> int" where
  "SecFromTime t = (t div 1000) mod 60"

definition msFromTime :: "int \<Rightarrow> int" where
  "msFromTime t = t mod 1000"

definition MakeTime :: "int \<Rightarrow> int \<Rightarrow> int \<Rightarrow> int \<Rightarrow> int" where
  "MakeTime hour minute sec ms = hour * 3600000 + minute * 60000 + sec * 1000 + ms"

definition MakeDate :: "int \<Rightarrow> int \<Rightarrow> int" where
  "MakeDate day time = day * 86400000 + time"

definition TimeClip :: "int \<Rightarrow> int option" where
  "TimeClip t = (if \<bar>t\<bar> > 8640000000000000 then None else Some t)"

definition getSeconds :: "zone \<Rightarrow> int \<Rightarrow> int" where
  "getSeconds z t = SecFromTime (LocalTime z t)"

definition setSeconds :: "zone \<Rightarrow> int \<Rightarrow> int \<Rightarrow> int option" where
  "setSeconds z t sec =
     (let local = LocalTime z t;
          date = MakeDate (Day local)
                   (MakeTime (HourFromTime local) (MinFromTime local) sec (msFromTime local))
      in TimeClip (UTC z date))"

text \<open>The time value of \<^verbatim>\<open>expiry\<close> after the two lines, run at time \<open>now\<close>.\<close>

definition expiry_date :: "zone \<Rightarrow> int \<Rightarrow> int \<Rightarrow> int option" where
  "expiry_date z now seconds = setSeconds z now (getSeconds z now + seconds)"

text \<open>
  New York around the end of daylight saving time on 3 November 2024: at 06:00:00 UTC
  (time value 1730613600000) the offset changes from four hours behind UTC to five. A local
  time of the repeated hour is read with the offset before the change.
\<close>

definition new_york :: zone where
  "new_york =
     \<lparr>tza_of_utc = (\<lambda>t. if t < 1730613600000 then - 14400000 else - 18000000),
      tza_of_local = (\<lambda>t. if t < 1730613600000 - 14400000 then - 14400000 else - 18000000)\<rparr>"

section \<open>Runs of a memoizer\<close>

text \<open>
  What can happen to a memoizer, one uninterrupted stretch of code each: a call, the
  settlement of the promise \<^verbatim>\<open>f\<close> returned to a leader, or \<^verbatim>\<open>clear_cache()\<close>. A leader whose
  \<^verbatim>\<open>f\<close> throws at once is its call followed by the settlement with no event between.
\<close>

datatype ('r, 'e) event =
    Call SimpleArgs int
  | Settles nat "('r, 'e) settlement" int
  | Clear

fun step :: "('r, 'e) memo \<Rightarrow> ('r, 'e) event \<Rightarrow> ('r, 'e) memo" where
  "step st (Call args now) = snd (memoized args now st)"
| "step st (Settles p outcome now) = resumed p outcome now st"
| "step st Clear = clear_cache st"

definition run :: "('r, 'e) memo \<Rightarrow> ('r, 'e) event list \<Rightarrow> ('r, 'e) memo" where
  "run st es = foldl step st es"

section \<open>Notions used in the statements\<close>

text \<open>The promises waiting in the in-flight record of \<open>key\<close>, in the order they joined.\<close>

definition waiters :: "('r, 'e) memo \<Rightarrow> string \<Rightarrow> nat list" where
  "waiters st key = (case Map_get (queue st) key of None \<Rightarrow> [] | Some hs \<Rightarrow> hs)"

text \<open>What the callers get when \<^verbatim>\<open>f\<close> settles with \<open>outcome\<close>.\<close>

definition delivered :: "('r, 'e) settlement \<Rightarrow> ('r, 'e reason) settlement" where
  "delivered outcome =
     (case outcome of Resolved r \<Rightarrow> Resolved r | Rejected e \<Rightarrow> Rejected (Thrown e))"

text \<open>
  The states a memoizer can be in. Promises not yet returned are untouched; a suspended
  leader is pending, has its in-flight record, and is the only leader of its key; a waiter
  is a returned promise, pending, not a leader, and waits under one key only; the cache has
  no key twice and, for a positive \<^verbatim>\<open>size\<close>, at most \<^verbatim>\<open>size\<close> entries.
\<close>

definition fresh_promises :: "('r, 'e) memo \<Rightarrow> bool" where
  "fresh_promises st \<longleftrightarrow> (\<forall>p \<ge> promises st. settled st p = None \<and> awaiting st p = None)"

definition leaders_ok :: "('r, 'e) memo \<Rightarrow> bool" where
  "leaders_ok st \<longleftrightarrow>
     (\<forall>p key. awaiting st p = Some key \<longrightarrow> settled st p = None \<and> Map_has (queue st) key) \<and>
     (\<forall>p q key. awaiting st p = Some key \<longrightarrow> awaiting st q = Some key \<longrightarrow> p = q)"

definition waiters_ok :: "('r, 'e) memo \<Rightarrow> bool" where
  "waiters_ok st \<longleftrightarrow>
     (\<forall>key h. h \<in> set (waiters st key) \<longrightarrow>
        h < promises st \<and> settled st h = None \<and> awaiting st h = None) \<and>
     (\<forall>key key'. key \<noteq> key' \<longrightarrow> set (waiters st key) \<inter> set (waiters st key') = {})"

definition cache_ok :: "('r, 'e) memo \<Rightarrow> bool" where
  "cache_ok st \<longleftrightarrow>
     distinct (Map_keys (cache st)) \<and>
     (1 \<le> maxSize st \<longrightarrow> int (Map_size (cache st)) \<le> maxSize st)"

definition sound :: "('r, 'e) memo \<Rightarrow> bool" where
  "sound st \<longleftrightarrow> fresh_promises st \<and> leaders_ok st \<and> waiters_ok st \<and> cache_ok st"

text \<open>
  How a call at time \<open>now\<close> proceeds when its arity is right and the cache does not
  serve it: it leads (no in-flight record for its key) or joins the record as a waiter.
\<close>

definition leads :: "SimpleArgs \<Rightarrow> int \<Rightarrow> ('r, 'e) memo \<Rightarrow> bool" where
  "leads args now st \<longleftrightarrow>
     f_length st = length args \<and> lookup st (JSON_stringify args) now = None \<and>
     \<not> Map_has (queue st) (JSON_stringify args)"

definition joins :: "SimpleArgs \<Rightarrow> int \<Rightarrow> ('r, 'e) memo \<Rightarrow> bool" where
  "joins args now st \<longleftrightarrow>
     f_length st = length args \<and> lookup st (JSON_stringify args) now = None \<and>
     Map_has (queue st) (JSON_stringify args)"

text \<open>
  The events that may happen while the leader \<open>p\<close>, called with \<open>args\<close> in state \<open>st0\<close>,
  is suspended: a call with the same arguments at a time when the entry \<open>st0\<close> holds for
  the key, if any, is expired; a call under another key; the settlement of another leader;
  \<^verbatim>\<open>clear_cache()\<close>. \<open>in_flight\<close> is what stays true of the state meanwhile.
\<close>

fun concurrent :: "('r, 'e) memo \<Rightarrow> SimpleArgs \<Rightarrow> nat \<Rightarrow> ('r, 'e) event \<Rightarrow> bool" where
  "concurrent st0 args p (Call a t) =
     (if a = args then lookup st0 (JSON_stringify args) t = None
      else JSON_stringify a \<noteq> JSON_stringify args)"
| "concurrent st0 args p (Settles q outcome t) = (q \<noteq> p)"
| "concurrent st0 args p Clear = True"

definition in_flight :: "('r, 'e) memo \<Rightarrow> SimpleArgs \<Rightarrow> nat \<Rightarrow> ('r, 'e) memo \<Rightarrow> bool" where
  "in_flight st0 args p st \<longleftrightarrow>
     sound st \<and> f_length st = length args \<and> awaiting st p = Some (JSON_stringify args) \<and>
     (Map_get (cache st) (JSON_stringify args) = None \<or>
      Map_get (cache st) (JSON_stringify args) = Map_get (cache st0) (JSON_stringify args)) \<and>
     filter (\<lambda>a. JSON_stringify a = JSON_stringify args) (invoked st) =
       filter (\<lambda>a. JSON_stringify a = JSON_stringify args) (invoked st0) @ [args]"

section \<open>Facts about the Map\<close>

lemma Map_get_set [simp]:
  "Map_get (Map_set m k v) k' = (if k' = k then Some v else Map_get m k')"
  by (induction m) auto

lemma Map_get_delete [simp]:
  "Map_get (Map_delete m k) k' = (if k' = k then None else Map_get m k')"
  by (induction m) auto

lemma Map_get_None_iff: "Map_get m k = None \<longleftrightarrow> k \<notin> set (Map_keys m)"
  by (induction m) (auto simp: Map_keys_def split: if_splits)

lemma Map_set_absent: "Map_get m k = None \<Longrightarrow> Map_set m k v = m @ [(k, v)]"
  by (induction m) (auto split: if_splits)

lemma Map_keys_set:
  "Map_keys (Map_set m k v) = (if Map_get m k = None then Map_keys m @ [k] else Map_keys m)"
  by (induction m) (auto simp: Map_keys_def split: if_splits)

lemma Map_delete_filter: "Map_delete m k = filter (\<lambda>e. fst e \<noteq> k) m"
  by (induction m) auto

lemma Map_keys_delete: "Map_keys (Map_delete m k) = filter (\<lambda>k'. k' \<noteq> k) (Map_keys m)"
  by (induction m) (auto simp: Map_keys_def)

lemma Map_delete_absent: "Map_get m k = None \<Longrightarrow> Map_delete m k = m"
  by (induction m) (auto split: if_splits)

lemma Map_delete_oldest:
  "distinct (Map_keys ((k, v) # m)) \<Longrightarrow> Map_delete ((k, v) # m) k = m"
  by (simp add: Map_delete_absent Map_get_None_iff Map_keys_def)

lemma length_Map_delete: "length (Map_delete m k) \<le> length m"
  by (simp add: Map_delete_filter)

lemma length_Map_set: "length (Map_set m k v) \<le> Suc (length m)"
  by (induction m) auto

lemma distinct_Map_set: "distinct (Map_keys m) \<Longrightarrow> distinct (Map_keys (Map_set m k v))"
  by (auto simp: Map_keys_set Map_get_None_iff)

lemma distinct_Map_delete: "distinct (Map_keys m) \<Longrightarrow> distinct (Map_keys (Map_delete m k))"
  by (simp add: Map_keys_delete)

section \<open>Settling promises touches nothing else\<close>

lemma settle_fields [simp]:
  "opts (settle p out st) = opts st"
  "maxSize (settle p out st) = maxSize st"
  "f_length (settle p out st) = f_length st"
  "cache (settle p out st) = cache st"
  "queue (settle p out st) = queue st"
  "promises (settle p out st) = promises st"
  "awaiting (settle p out st) = awaiting st"
  "invoked (settle p out st) = invoked st"
  by (simp_all add: settle_def)

lemma settled_settle:
  "settled (settle p out st) q = (if q = p \<and> settled st p = None then Some out else settled st q)"
  by (simp add: settle_def)

lemma settle_all_fields [simp]:
  "opts (settle_all hs out st) = opts st"
  "maxSize (settle_all hs out st) = maxSize st"
  "f_length (settle_all hs out st) = f_length st"
  "cache (settle_all hs out st) = cache st"
  "queue (settle_all hs out st) = queue st"
  "promises (settle_all hs out st) = promises st"
  "awaiting (settle_all hs out st) = awaiting st"
  "invoked (settle_all hs out st) = invoked st"
  by (induction hs arbitrary: st; simp)+

lemma settled_settle_all:
  "settled (settle_all hs out st) q =
     (if q \<in> set hs \<and> settled st q = None then Some out else settled st q)"
  by (induction hs arbitrary: st) (auto simp: settled_settle)

lemma notify_fields [simp]:
  "opts (notify h out st) = opts st"
  "maxSize (notify h out st) = maxSize st"
  "f_length (notify h out st) = f_length st"
  "cache (notify h out st) = cache st"
  "queue (notify h out st) = queue st"
  "promises (notify h out st) = promises st"
  "awaiting (notify h out st) = awaiting st"
  "invoked (notify h out st) = invoked st"
  by (simp_all add: notify_def split: option.splits)

lemma settled_notify:
  "settled (notify h out st) q =
     (if q \<in> set (case h of None \<Rightarrow> [] | Some hs \<Rightarrow> hs) \<and> settled st q = None then Some out
      else settled st q)"
  by (simp add: notify_def settled_settle_all split: option.splits)

section \<open>The fields after a resumed leader\<close>

lemmas resumed_defs = resumed_def succeeded_def store_def take_handlers_def Let_def

lemma resumed_idle: "awaiting st p = None \<Longrightarrow> resumed p outcome now st = st"
  by (simp add: resumed_def)

lemma resumed_fields [simp]:
  "opts (resumed p outcome now st) = opts st"
  "maxSize (resumed p outcome now st) = maxSize st"
  "f_length (resumed p outcome now st) = f_length st"
  "promises (resumed p outcome now st) = promises st"
  "invoked (resumed p outcome now st) = invoked st"
  by (simp_all add: resumed_defs split: option.splits settlement.splits)

lemma awaiting_resumed: "awaiting (resumed p outcome now st) = (awaiting st)(p := None)"
  by (auto simp add: resumed_defs split: option.splits settlement.splits)

lemma queue_resumed:
  "awaiting st p = Some key \<Longrightarrow> queue (resumed p outcome now st) = Map_delete (queue st) key"
  by (simp add: resumed_defs split: option.splits settlement.splits)

lemma cache_resumed_Resolved:
  "awaiting st p = Some key \<Longrightarrow>
   cache (resumed p (Resolved r) now st) =
     Map_set (evict (maxSize st) (cache st)) key
       \<lparr>entry_value = r, entry_expiry = now + 1000 * ttl (opts st)\<rparr>"
  by (simp add: resumed_defs)

lemma cache_resumed_Rejected: "cache (resumed p (Rejected e) now st) = cache st"
  by (simp add: resumed_defs split: option.splits)

lemma settled_resumed:
  "awaiting st p = Some key \<Longrightarrow>
   settled (resumed p outcome now st) q =
     (if (q = p \<or> q \<in> set (waiters st key)) \<and> settled st q = None then Some (delivered outcome)
      else settled st q)"
  by (auto simp add: resumed_defs waiters_def delivered_def
      settled_settle settled_notify split: option.splits settlement.splits)

section \<open>The fields after a call\<close>

lemma new_promise_fields [simp]:
  "fst (new_promise st) = promises st"
  "opts (snd (new_promise st)) = opts st"
  "maxSize (snd (new_promise st)) = maxSize st"
  "f_length (snd (new_promise st)) = f_length st"
  "cache (snd (new_promise st)) = cache st"
  "queue (snd (new_promise st)) = queue st"
  "promises (snd (new_promise st)) = Suc (promises st)"
  "settled (snd (new_promise st)) = (settled st)(promises st := None)"
  "awaiting (snd (new_promise st)) = awaiting st"
  "invoked (snd (new_promise st)) = invoked st"
  by (simp_all add: new_promise_def)

lemma lookup_new_promise [simp]: "lookup (snd (new_promise st)) key now = lookup st key now"
  by (simp add: lookup_def)

lemma enqueue_fields [simp]:
  "opts (enqueue key p st) = opts st"
  "maxSize (enqueue key p st) = maxSize st"
  "f_length (enqueue key p st) = f_length st"
  "cache (enqueue key p st) = cache st"
  "promises (enqueue key p st) = promises st"
  "settled (enqueue key p st) = settled st"
  "awaiting (enqueue key p st) = awaiting st"
  "invoked (enqueue key p st) = invoked st"
  by (simp_all add: enqueue_def split: option.splits)

lemma Map_has_enqueue [simp]: "Map_has (queue (enqueue key p st)) key' = Map_has (queue st) key'"
  by (auto simp add: enqueue_def Map_has_def split: option.splits)

lemma lead_fields [simp]:
  "opts (lead key args p st) = opts st"
  "maxSize (lead key args p st) = maxSize st"
  "f_length (lead key args p st) = f_length st"
  "cache (lead key args p st) = cache st"
  "promises (lead key args p st) = promises st"
  "settled (lead key args p st) = settled st"
  "awaiting (lead key args p st) = (awaiting st)(p \<mapsto> key)"
  "invoked (lead key args p st) = invoked st @ [args]"
  "queue (lead key args p st) = Map_set (queue st) key []"
  by (simp_all add: lead_def)

lemma memoized_fst [simp]: "fst (memoized args now st) = promises st"
  by (simp add: memoized_def Let_def split_beta split: option.splits)

lemma memoized_mismatch:
  "f_length st \<noteq> length args \<Longrightarrow>
   snd (memoized args now st) =
     settle (promises st) (Rejected (InvalidArity (length args) (f_length st)))
       (snd (new_promise st))"
  by (simp add: memoized_def Let_def split_beta)

lemma memoized_hit:
  "f_length st = length args \<Longrightarrow> lookup st (JSON_stringify args) now = Some v \<Longrightarrow>
   snd (memoized args now st) = settle (promises st) (Resolved v) (snd (new_promise st))"
  by (simp add: memoized_def Let_def split_beta)

lemma memoized_wait:
  "f_length st = length args \<Longrightarrow> lookup st (JSON_stringify args) now = None \<Longrightarrow>
   Map_has (queue st) (JSON_stringify args) \<Longrightarrow>
   snd (memoized args now st) = enqueue (JSON_stringify args) (promises st) (snd (new_promise st))"
  by (simp add: memoized_def Let_def split_beta)

lemma memoized_lead:
  "f_length st = length args \<Longrightarrow> lookup st (JSON_stringify args) now = None \<Longrightarrow>
   \<not> Map_has (queue st) (JSON_stringify args) \<Longrightarrow>
   snd (memoized args now st) =
     lead (JSON_stringify args) args (promises st) (snd (new_promise st))"
  by (simp add: memoized_def Let_def split_beta)

lemma memoized_fields [simp]:
  "opts (snd (memoized args now st)) = opts st"
  "maxSize (snd (memoized args now st)) = maxSize st"
  "f_length (snd (memoized args now st)) = f_length st"
  "cache (snd (memoized args now st)) = cache st"
  "promises (snd (memoized args now st)) = Suc (promises st)"
  by (simp_all add: memoized_def Let_def split_beta split: option.splits)

lemma clear_cache_fields [simp]:
  "opts (clear_cache st) = opts st"
  "maxSize (clear_cache st) = maxSize st"
  "f_length (clear_cache st) = f_length st"
  "cache (clear_cache st) = []"
  "queue (clear_cache st) = queue st"
  "promises (clear_cache st) = promises st"
  "settled (clear_cache st) = settled st"
  "awaiting (clear_cache st) = awaiting st"
  "invoked (clear_cache st) = invoked st"
  by (simp_all add: clear_cache_def)

section \<open>The waiters of a key\<close>

lemma waiters_settle [simp]: "waiters (settle p out st) key = waiters st key"
  by (simp add: waiters_def)

lemma waiters_new_promise [simp]: "waiters (snd (new_promise st)) key = waiters st key"
  by (simp add: waiters_def)

lemma waiters_enqueue:
  "waiters (enqueue key p st) key' =
     (if key' = key \<and> Map_has (queue st) key then waiters st key @ [p] else waiters st key')"
  by (auto simp add: waiters_def enqueue_def Map_has_def split: option.splits)

lemma waiters_lead:
  "waiters (lead key args p st) key' = (if key' = key then [] else waiters st key')"
  by (simp add: waiters_def)

lemma waiters_resumed:
  "awaiting st p = Some key \<Longrightarrow>
   waiters (resumed p outcome now st) key' = (if key' = key then [] else waiters st key')"
  by (simp add: waiters_def queue_resumed)

lemma waiters_clear [simp]: "waiters (clear_cache st) key = waiters st key"
  by (simp add: waiters_def)

section \<open>Every run stays in the sound states\<close>

lemmas sound_defs = sound_def fresh_promises_def leaders_ok_def waiters_ok_def cache_ok_def

lemma sound_closure: "sound (closure options n)"
  by (simp add: sound_defs closure_def waiters_def Map_keys_def Map_size_def)

lemma sound_settle_new:
  assumes "sound st"
  shows "sound (settle (promises st) out (snd (new_promise st)))"
  using assms unfolding sound_defs
  by (auto simp add: settled_settle less_Suc_eq dest: Suc_leD)

lemma sound_enqueue:
  assumes "sound st"
  shows "sound (enqueue key (promises st) (snd (new_promise st)))"
proof -
  let ?st = "enqueue key (promises st) (snd (new_promise st))"
  have "fresh_promises ?st"
    using assms unfolding sound_defs by (auto dest: Suc_leD)
  moreover have "leaders_ok ?st"
    using assms unfolding sound_defs by auto
  moreover have "waiters_ok ?st"
    using assms unfolding sound_defs
    by (auto simp add: waiters_enqueue less_Suc_eq split: if_splits)
  moreover have "cache_ok ?st"
    using assms unfolding sound_defs by simp
  ultimately show ?thesis by (simp add: sound_def)
qed

lemma sound_lead:
  assumes "sound st" "\<not> Map_has (queue st) key"
  shows "sound (lead key args (promises st) (snd (new_promise st)))"
proof -
  let ?st = "lead key args (promises st) (snd (new_promise st))"
  have "fresh_promises ?st"
    using assms unfolding sound_defs by (auto dest: Suc_leD)
  moreover have "leaders_ok ?st"
  proof -
    have nolead: "awaiting st q \<noteq> Some key" for q
      using assms unfolding sound_def leaders_ok_def by blast
    have new: "settled st (promises st) = None"
      using assms unfolding sound_def fresh_promises_def by blast
    have old: "leaders_ok st"
      using assms unfolding sound_def by blast
    have "settled ?st p = None \<and> Map_has (queue ?st) k" if "awaiting ?st p = Some k" for p k
      using that old new unfolding leaders_ok_def
      by (auto simp add: Map_has_def split: if_splits)
    moreover have "p = q" if "awaiting ?st p = Some k" "awaiting ?st q = Some k" for p q k
      using that old nolead unfolding leaders_ok_def
      by (auto split: if_splits)
    ultimately show ?thesis
      unfolding leaders_ok_def by blast
  qed
  moreover have "waiters_ok ?st"
    using assms unfolding sound_defs
    by (auto simp add: waiters_lead less_Suc_eq split: if_splits)
  moreover have "cache_ok ?st"
    using assms unfolding sound_defs by simp
  ultimately show ?thesis by (simp add: sound_def)
qed

lemma sound_memoized:
  assumes "sound st"
  shows "sound (snd (memoized args now st))"
proof (cases "f_length st = length args")
  case False
  then show ?thesis using assms by (simp add: memoized_mismatch sound_settle_new)
next
  case arity: True
  show ?thesis
  proof (cases "lookup st (JSON_stringify args) now")
    case (Some v)
    then show ?thesis using arity assms by (simp add: memoized_hit sound_settle_new)
  next
    case None
    then show ?thesis using arity assms
      by (cases "Map_has (queue st) (JSON_stringify args)")
        (simp_all add: memoized_wait memoized_lead sound_enqueue sound_lead)
  qed
qed

lemma sound_clear: "sound st \<Longrightarrow> sound (clear_cache st)"
  unfolding sound_defs by (simp add: Map_keys_def Map_size_def)

lemma distinct_evict: "distinct (Map_keys c) \<Longrightarrow> distinct (Map_keys (evict M c))"
  by (auto simp add: evict_def distinct_Map_delete split: list.splits)

lemma length_evict_full:
  assumes "M \<le> int (length c)" "c \<noteq> []"
  shows "length (evict M c) < length c"
proof -
  obtain k v m where c: "c = (k, v) # m"
    using assms(2) by (cases c) auto
  have "length (Map_delete m k) \<le> length m"
    by (rule length_Map_delete)
  then show ?thesis
    using assms(1) by (simp add: evict_def c Map_keys_def Map_size_def)
qed

lemma length_store_bounded:
  assumes "1 \<le> M" "int (length c) \<le> M"
  shows "int (length (Map_set (evict M c) k e)) \<le> M"
proof (cases "M \<le> int (length c)")
  case True
  then have "c \<noteq> []" using assms(1) by auto
  then have "length (evict M c) < length c"
    using True by (rule length_evict_full[rotated])
  moreover have "length (Map_set (evict M c) k e) \<le> Suc (length (evict M c))"
    by (rule length_Map_set)
  ultimately show ?thesis using assms(2) by linarith
next
  case False
  then have "evict M c = c" by (simp add: evict_def Map_size_def)
  moreover have "length (Map_set c k e) \<le> Suc (length c)"
    by (rule length_Map_set)
  ultimately show ?thesis using False by simp
qed

lemma cache_ok_resumed:
  assumes "cache_ok st"
  shows "cache_ok (resumed p outcome now st)"
proof (cases "awaiting st p")
  case None
  then show ?thesis using assms by (simp add: resumed_idle)
next
  case (Some key)
  show ?thesis
  proof (cases outcome)
    case (Resolved r)
    then show ?thesis
      using assms Some unfolding cache_ok_def
      by (simp add: cache_resumed_Resolved distinct_Map_set distinct_evict
          length_store_bounded Map_size_def)
  next
    case (Rejected e)
    then show ?thesis
      using assms unfolding cache_ok_def by (simp add: cache_resumed_Rejected)
  qed
qed

lemma sound_resumed:
  assumes "sound st"
  shows "sound (resumed p outcome now st)"
proof (cases "awaiting st p")
  case None
  then show ?thesis using assms by (simp add: resumed_idle)
next
  case (Some key)
  let ?st = "resumed p outcome now st"
  have fp: "fresh_promises st" and lo: "leaders_ok st" and wo: "waiters_ok st"
    and co: "cache_ok st"
    using assms unfolding sound_def by blast+
  have p_old: "p < promises st"
    using fp Some unfolding fresh_promises_def by (metis not_le option.distinct(1))
  have w_old: "h < promises st" "awaiting st h = None" "settled st h = None"
    if "h \<in> set (waiters st k)" for h k
    using wo that unfolding waiters_ok_def by blast+
  have "fresh_promises ?st"
  proof -
    have "settled ?st q = None \<and> awaiting ?st q = None" if "promises st \<le> q" for q
    proof -
      have "q \<noteq> p" using p_old that by simp
      moreover have "q \<notin> set (waiters st key)" using w_old(1)[of q key] that by auto
      ultimately show ?thesis
        using fp that Some unfolding fresh_promises_def
        by (simp add: settled_resumed awaiting_resumed)
    qed
    then show ?thesis unfolding fresh_promises_def by simp
  qed
  moreover have "leaders_ok ?st"
  proof -
    have "settled ?st q = None \<and> Map_has (queue ?st) k" if "awaiting ?st q = Some k" for q k
    proof -
      from that have q: "q \<noteq> p" "awaiting st q = Some k"
        by (auto simp add: awaiting_resumed split: if_splits)
      then have "k \<noteq> key" using lo Some unfolding leaders_ok_def by blast
      moreover have "q \<notin> set (waiters st key)" using w_old(2) q(2) by fastforce
      moreover have "settled st q = None" "Map_has (queue st) k"
        using lo q(2) unfolding leaders_ok_def by blast+
      ultimately show ?thesis
        using q(1) Some by (simp add: settled_resumed queue_resumed Map_has_def)
    qed
    moreover have "q = q'" if "awaiting ?st q = Some k" "awaiting ?st q' = Some k" for q q' k
      using that lo unfolding leaders_ok_def
      by (auto simp add: awaiting_resumed split: if_splits)
    ultimately show ?thesis unfolding leaders_ok_def by blast
  qed
  moreover have "waiters_ok ?st"
  proof -
    have "h < promises ?st \<and> settled ?st h = None \<and> awaiting ?st h = None"
      if "h \<in> set (waiters ?st k)" for h k
    proof -
      from that have k: "k \<noteq> key" "h \<in> set (waiters st k)"
        using Some by (auto simp add: waiters_resumed split: if_splits)
      then have "h \<notin> set (waiters st key)"
        using wo unfolding waiters_ok_def by blast
      moreover have "h \<noteq> p" using w_old(2)[OF k(2)] Some by auto
      ultimately show ?thesis
        using w_old[OF k(2)] Some by (simp add: settled_resumed awaiting_resumed)
    qed
    moreover have "set (waiters ?st k) \<inter> set (waiters ?st k') = {}" if "k \<noteq> k'" for k k'
      using that wo Some unfolding waiters_ok_def by (simp add: waiters_resumed)
    ultimately show ?thesis unfolding waiters_ok_def by blast
  qed
  moreover have "cache_ok ?st"
    using co by (rule cache_ok_resumed)
  ultimately show ?thesis by (simp add: sound_def)
qed

lemma sound_step: "sound st \<Longrightarrow> sound (step st e)"
  by (cases e) (simp_all add: sound_memoized sound_resumed sound_clear)

lemma sound_foldl: "sound st \<Longrightarrow> sound (foldl step st es)"
  by (induction es arbitrary: st) (simp_all add: sound_step)

lemma sound_run: "sound (run (closure options n) es)"
  by (simp add: run_def sound_foldl sound_closure)

section \<open>While a leader is suspended\<close>

lemma awaiting_memoized:
  "awaiting (snd (memoized args now st)) =
     (if leads args now st then (awaiting st)(promises st \<mapsto> JSON_stringify args)
      else awaiting st)"
  by (simp add: memoized_def leads_def Let_def split_beta split: option.splits)

lemma invoked_memoized:
  "invoked (snd (memoized args now st)) =
     (if leads args now st then invoked st @ [args] else invoked st)"
  by (simp add: memoized_def leads_def Let_def split_beta split: option.splits)

lemma memoized_cases:
  obtains (mismatch) "f_length st \<noteq> length args"
  | (hit) v where "f_length st = length args" "lookup st (JSON_stringify args) now = Some v"
  | (joins) "joins args now st"
  | (leads) "leads args now st"
  unfolding joins_def leads_def by (cases "lookup st (JSON_stringify args) now") auto

lemma waiters_memoized:
  "waiters (snd (memoized args now st)) key =
     (if joins args now st \<and> key = JSON_stringify args then waiters st key @ [promises st]
      else waiters st key)"
proof (cases rule: memoized_cases[where st=st and args=args and now=now])
  case mismatch
  then show ?thesis by (simp add: memoized_mismatch joins_def)
next
  case (hit v)
  then show ?thesis by (simp add: memoized_hit joins_def)
next
  case joins
  then show ?thesis
    unfolding joins_def by (simp add: memoized_wait waiters_enqueue)
next
  case leads
  then have "\<not> joins args now st" "waiters st (JSON_stringify args) = []"
    unfolding leads_def joins_def by (simp_all add: waiters_def Map_has_def)
  then show ?thesis
    using leads unfolding leads_def by (simp add: memoized_lead waiters_lead)
qed

lemma settled_memoized_new:
  "settled (snd (memoized args now st)) (promises st) =
     (if f_length st \<noteq> length args
      then Some (Rejected (InvalidArity (length args) (f_length st)))
      else map_option Resolved (lookup st (JSON_stringify args) now))"
  by (simp add: memoized_def Let_def split_beta settled_settle split: option.splits)

lemma lookup_expired_later:
  "lookup st key t = None \<Longrightarrow> t \<le> t' \<Longrightarrow> lookup st key t' = None"
  by (auto simp add: lookup_def fresh_def split: option.splits if_splits)

lemma lookup_cong_entry:
  "Map_get (cache st) key = Map_get (cache st') key \<Longrightarrow> lookup st key t = lookup st' key t"
  by (simp add: lookup_def)

lemma lookup_absent: "Map_get (cache st) key = None \<Longrightarrow> lookup st key t = None"
  by (simp add: lookup_def)

lemma Map_get_evict:
  "Map_get (evict M c) k = None \<or> Map_get (evict M c) k = Map_get c k"
  by (simp add: evict_def split: list.splits)

lemma in_flight_lookup:
  assumes "in_flight st0 args p st" "lookup st0 (JSON_stringify args) t = None"
  shows "lookup st (JSON_stringify args) t = None"
  using assms unfolding in_flight_def
  by (metis lookup_absent lookup_cong_entry)

lemma in_flight_lead:
  assumes "sound st0" "leads args t0 st0"
  shows "in_flight st0 args (promises st0) (snd (memoized args t0 st0))"
  using assms sound_memoized[OF assms(1), of args t0]
  by (simp add: in_flight_def awaiting_memoized invoked_memoized leads_def)

lemma in_flight_old:
  assumes "in_flight st0 args p st"
  shows "p < promises st"
proof -
  have "fresh_promises st" "awaiting st p \<noteq> None"
    using assms unfolding in_flight_def sound_def by auto
  then show ?thesis unfolding fresh_promises_def by (meson not_le)
qed

lemma in_flight_call:
  assumes inf: "in_flight st0 args p st" and ok: "concurrent st0 args p (Call a t)"
  shows "in_flight st0 args p (snd (memoized a t st))"
proof -
  let ?key = "JSON_stringify args"
  have has: "Map_has (queue st) ?key"
    using inf unfolding in_flight_def sound_def leaders_ok_def by blast
  have not_leads: "\<not> (leads a t st \<and> JSON_stringify a = ?key)"
    using has by (auto simp add: leads_def)
  have p: "p \<noteq> promises st"
    using in_flight_old[OF inf] by simp
  have "sound (snd (memoized a t st))"
    using inf unfolding in_flight_def by (simp add: sound_memoized)
  moreover have "awaiting (snd (memoized a t st)) p = Some ?key"
    using inf p unfolding in_flight_def by (simp add: awaiting_memoized)
  moreover have "filter (\<lambda>a. JSON_stringify a = ?key) (invoked (snd (memoized a t st))) =
      filter (\<lambda>a. JSON_stringify a = ?key) (invoked st0) @ [args]"
    using inf not_leads unfolding in_flight_def by (auto simp add: invoked_memoized)
  ultimately show ?thesis
    using inf unfolding in_flight_def by simp
qed

lemma in_flight_joins:
  assumes inf: "in_flight st0 args p st" and ok: "lookup st0 (JSON_stringify args) t = None"
  shows "joins args t st"
proof -
  have "Map_has (queue st) (JSON_stringify args)"
    using inf unfolding in_flight_def sound_def leaders_ok_def by blast
  then show ?thesis
    using inf in_flight_lookup[OF inf ok] unfolding in_flight_def joins_def by simp
qed

lemma in_flight_settles:
  assumes inf: "in_flight st0 args p st" and ok: "q \<noteq> p"
  shows "in_flight st0 args p (resumed q outcome t st) \<and>
     waiters (resumed q outcome t st) (JSON_stringify args) = waiters st (JSON_stringify args)"
proof (cases "awaiting st q")
  case None
  then show ?thesis using inf by (simp add: resumed_idle)
next
  case (Some k)
  let ?key = "JSON_stringify args"
  have k: "k \<noteq> ?key"
    using inf ok Some unfolding in_flight_def sound_def leaders_ok_def by blast
  have "sound (resumed q outcome t st)"
    using inf unfolding in_flight_def by (simp add: sound_resumed)
  moreover have "awaiting (resumed q outcome t st) p = Some ?key"
    using inf ok unfolding in_flight_def by (simp add: awaiting_resumed)
  moreover have "Map_get (cache (resumed q outcome t st)) ?key = None \<or>
      Map_get (cache (resumed q outcome t st)) ?key = Map_get (cache st0) ?key"
  proof (cases outcome)
    case (Resolved r)
    then show ?thesis
      using inf k Some Map_get_evict[of "maxSize st" "cache st" ?key] unfolding in_flight_def
      by (auto simp add: cache_resumed_Resolved)
  next
    case (Rejected e)
    then show ?thesis
      using inf unfolding in_flight_def by (simp add: cache_resumed_Rejected)
  qed
  ultimately show ?thesis
    using inf k Some unfolding in_flight_def by (simp add: waiters_resumed)
qed

lemma in_flight_clear:
  assumes "in_flight st0 args p st"
  shows "in_flight st0 args p (clear_cache st)"
  using assms unfolding in_flight_def by (simp add: sound_clear)

lemma in_flight_step:
  assumes "in_flight st0 args p st" "concurrent st0 args p e"
  shows "in_flight st0 args p (step st e)"
proof (cases e)
  case (Call a t)
  with assms(2) have "concurrent st0 args p (Call a t)" by simp
  with assms(1) show ?thesis unfolding Call step.simps by (rule in_flight_call)
next
  case (Settles q outcome t)
  with assms(2) have "q \<noteq> p" by simp
  with assms(1) show ?thesis unfolding Settles step.simps by (simp add: in_flight_settles)
next
  case Clear
  with assms(1) show ?thesis by (simp add: in_flight_clear)
qed

lemma waiters_step_mono:
  assumes "in_flight st0 args p st" "concurrent st0 args p e"
  shows "set (waiters st (JSON_stringify args)) \<subseteq> set (waiters (step st e) (JSON_stringify args))"
proof (cases e)
  case (Call a t)
  then show ?thesis by (auto simp add: waiters_memoized)
next
  case (Settles q outcome t)
  with assms(2) have "q \<noteq> p" by simp
  with assms(1) show ?thesis unfolding Settles step.simps by (simp add: in_flight_settles)
next
  case Clear
  then show ?thesis by simp
qed

lemma in_flight_run:
  assumes "in_flight st0 args p st" "\<forall>e \<in> set es. concurrent st0 args p e"
  shows "in_flight st0 args p (run st es)"
  using assms unfolding run_def
  by (induction es arbitrary: st) (simp_all add: in_flight_step)

lemma waiters_run_mono:
  assumes "in_flight st0 args p st" "\<forall>e \<in> set es. concurrent st0 args p e"
  shows "set (waiters st (JSON_stringify args)) \<subseteq> set (waiters (run st es) (JSON_stringify args))"
  using assms unfolding run_def
proof (induction es arbitrary: st)
  case Nil
  then show ?case by simp
next
  case (Cons e es)
  have "set (waiters st (JSON_stringify args)) \<subseteq> set (waiters (step st e) (JSON_stringify args))"
    using Cons.prems by (simp add: waiters_step_mono)
  moreover have "set (waiters (step st e) (JSON_stringify args))
      \<subseteq> set (waiters (foldl step (step st e) es) (JSON_stringify args))"
    using Cons.prems by (intro Cons.IH) (simp_all add: in_flight_step)
  ultimately show ?case by simp
qed

lemma run_append: "run st (es @ es') = run (run st es) es'"
  by (simp add: run_def)

lemma run_Cons: "run st (e # es) = run (step st e) es"
  by (simp add: run_def)

lemma run_Nil: "run st [] = st"
  by (simp add: run_def)

lemma caller_waits:
  assumes inf: "in_flight st0 args p st" and ok: "\<forall>e \<in> set es. concurrent st0 args p e"
    and i: "i < length es" "es ! i = Call args t"
  shows "promises (run st (take i es)) \<in> set (waiters (run st es) (JSON_stringify args))"
proof -
  let ?key = "JSON_stringify args"
  let ?st = "run st (take i es)"
  have before: "in_flight st0 args p ?st"
  proof (rule in_flight_run[OF inf])
    show "\<forall>e \<in> set (take i es). concurrent st0 args p e"
      using ok by (meson in_set_takeD)
  qed
  have "es ! i \<in> set es"
    using i(1) by (rule nth_mem)
  then have c: "concurrent st0 args p (Call args t)"
    using ok i(2) by (metis (full_types))
  then have "lookup st0 ?key t = None" by simp
  then have "joins args t ?st"
    using before by (rule in_flight_joins[rotated])
  then have here: "promises ?st \<in> set (waiters (step ?st (Call args t)) ?key)"
    by (simp add: waiters_memoized)
  have after: "in_flight st0 args p (step ?st (Call args t))"
    using before c by (rule in_flight_step)
  have rest: "\<forall>e \<in> set (drop (Suc i) es). concurrent st0 args p e"
    using ok by (meson in_set_dropD)
  have mono: "set (waiters (step ?st (Call args t)) ?key)
      \<subseteq> set (waiters (run (step ?st (Call args t)) (drop (Suc i) es)) ?key)"
    using after rest by (rule waiters_run_mono)
  have split: "take i es @ Call args t # drop (Suc i) es = es"
    using i by (metis id_take_nth_drop)
  have "run st (take i es @ Call args t # drop (Suc i) es)
      = run (step ?st (Call args t)) (drop (Suc i) es)"
    by (simp only: run_append run_Cons)
  then have "run st es = run (step ?st (Call args t)) (drop (Suc i) es)"
    by (simp only: split)
  then have "set (waiters (step ?st (Call args t)) ?key) \<subseteq> set (waiters (run st es) ?key)"
    using mono by (simp only:)
  then show ?thesis using here by (rule subsetD)
qed

lemma sound_leader_pending:
  assumes "sound st" "awaiting st p = Some key"
  shows "settled st p = None"
  using assms unfolding sound_def leaders_ok_def by blast

lemma sound_waiter_pending:
  assumes "sound st" "h \<in> set (waiters st key)"
  shows "settled st h = None"
proof -
  have "waiters_ok st" using assms(1) by (simp add: sound_def)
  then show ?thesis using assms(2) unfolding waiters_ok_def by blast
qed

lemma sound_settled_resumed:
  assumes "sound st" "awaiting st p = Some key" "q = p \<or> q \<in> set (waiters st key)"
  shows "settled (resumed p outcome t st) q = Some (delivered outcome)"
proof -
  have "settled st q = None"
  proof (cases "q = p")
    case True
    then show ?thesis using assms(1,2) by (simp add: sound_leader_pending)
  next
    case False
    then have "q \<in> set (waiters st key)" using assms(3) by simp
    with assms(1) show ?thesis by (rule sound_waiter_pending)
  qed
  then show ?thesis
    using assms(2,3) by (simp add: settled_resumed)
qed

lemma in_flight_settled:
  assumes inf: "in_flight st0 args p st"
    and q: "q = p \<or> q \<in> set (waiters st (JSON_stringify args))"
  shows "settled (resumed p outcome t st) q = Some (delivered outcome)"
proof -
  have "sound st" "awaiting st p = Some (JSON_stringify args)"
    using inf by (simp_all add: in_flight_def)
  then show ?thesis using q by (rule sound_settled_resumed)
qed

section \<open>The configuration never changes\<close>

lemma run_snoc: "run st (es @ [e]) = step (run st es) e"
  by (simp add: run_def)

lemma step_config:
  "opts (step st e) = opts st" "maxSize (step st e) = maxSize st"
  "f_length (step st e) = f_length st"
  by (cases e; simp)+

lemma run_config:
  "opts (run st es) = opts st" "maxSize (run st es) = maxSize st"
  "f_length (run st es) = f_length st"
  by (induction es rule: rev_induct; simp add: run_snoc run_Nil step_config)+

lemma closure_config:
  "opts (closure options n) = options" "maxSize (closure options n) = size_opt options"
  "f_length (closure options n) = n"
  by (simp_all add: closure_def)

section \<open>The expiry in a zone\<close>

lemma time_fields:
  "MakeDate (Day t) (MakeTime (HourFromTime t) (MinFromTime t) (SecFromTime t) (msFromTime t)) = t"
proof -
  define a where "a = t div 1000"
  define b where "b = a div 60"
  define c where "c = b div 60"
  define d where "d = c div 24"
  define ms where "ms = t mod 1000"
  define sec where "sec = a mod 60"
  define minute where "minute = b mod 60"
  define hour where "hour = c mod 24"
  have t: "t = a * 1000 + ms"
    by (simp add: a_def ms_def)
  have a: "a = b * 60 + sec"
    by (simp add: b_def sec_def)
  have b: "b = c * 60 + minute"
    by (simp add: c_def minute_def)
  have c: "c = d * 24 + hour"
    by (simp add: d_def hour_def)
  have m: "t div 60000 = b"
    using zdiv_zmult2_eq [of 60 t 1000] by (simp add: b_def a_def)
  have h: "t div 3600000 = c"
    using zdiv_zmult2_eq [of 60 t 60000] by (simp add: c_def m)
  have dd: "t div 86400000 = d"
    using zdiv_zmult2_eq [of 24 t 3600000] by (simp add: d_def h)
  have fields: "Day t = d" "HourFromTime t = hour" "MinFromTime t = minute"
    "SecFromTime t = sec" "msFromTime t = ms"
    by (simp_all add: Day_def HourFromTime_def MinFromTime_def SecFromTime_def msFromTime_def
        m h dd a_def [symmetric] d_def hour_def minute_def sec_def ms_def)
  have "d * 86400000 + (hour * 3600000 + minute * 60000 + sec * 1000 + ms) = t"
    using t a b c by linarith
  then show ?thesis
    unfolding fields MakeDate_def MakeTime_def .
qed

lemma set_seconds_moves:
  "MakeDate (Day t) (MakeTime (HourFromTime t) (MinFromTime t) (SecFromTime t + s) (msFromTime t))
     = t + 1000 * s"
proof -
  have "MakeDate (Day t) (MakeTime (HourFromTime t) (MinFromTime t) (SecFromTime t + s) (msFromTime t))
      = MakeDate (Day t) (MakeTime (HourFromTime t) (MinFromTime t) (SecFromTime t) (msFromTime t))
        + 1000 * s"
    by (simp add: MakeDate_def MakeTime_def algebra_simps)
  then show ?thesis by (simp add: time_fields)
qed

text \<open>The two lines move the local time by the seconds given and read it back as a time value.\<close>

lemma expiry_date_local:
  "expiry_date z now s = TimeClip (UTC z (LocalTime z now + 1000 * s))"
  by (simp add: expiry_date_def setSeconds_def getSeconds_def Let_def set_seconds_moves)

text \<open>In a zone whose offset never changes, and in range, that is the expiry \<open>store\<close> takes.\<close>

lemma expiry_date_fixed_offset:
  assumes "tza_of_utc z = (\<lambda>_. d)" "tza_of_local z = (\<lambda>_. d)"
    and "\<bar>now + 1000 * s\<bar> \<le> 8640000000000000"
  shows "expiry_date z now s = Some (now + 1000 * s)"
  using assms by (simp add: expiry_date_local UTC_def LocalTime_def TimeClip_def)

section \<open>The journal of a resumed leader\<close>

lemma journal_settle: "journal (settle p out st) = journal st @ [Settle p]"
  by (simp add: settle_def)

lemma journal_settle_all: "journal (settle_all hs out st) = journal st @ map Settle hs"
  by (induction hs arbitrary: st) (simp_all add: journal_settle)

lemma journal_succeeded:
  "journal (snd (succeeded key r now st)) =
     journal st @ evicted (maxSize st) (cache st) @ [Cache_set key, Queue_delete key]"
  by (simp add: succeeded_def store_def take_handlers_def Let_def)

lemma resumed_Resolved:
  assumes "awaiting st p = Some key"
  shows "resumed p (Resolved r) now st =
     settle p (Resolved r) (settle_all (waiters st key) (Resolved r)
       (snd (succeeded key r now (st\<lparr>awaiting := (awaiting st)(p := None)\<rparr>))))"
  using assms
  by (simp add: resumed_defs notify_def waiters_def split: option.splits)

section \<open>Evaluating the model on concrete runs\<close>

lemmas exec_defs = run_def memoized_def new_promise_def lookup_def fresh_def enqueue_def lead_def
  settle_def resumed_def succeeded_def store_def evict_def take_handlers_def notify_def
  clear_cache_def cache_size_def closure_def Map_has_def Map_keys_def Map_size_def
  JSON_stringify_def Number_toString_def decimal.simps digit_char_def QuoteJSONString_def
  quote_char_def Let_def

section \<open>C1: concurrent calls with the same arguments share one invocation\<close>

text \<open>
  C1. Take any state a memoizer can reach and a call with \<open>args\<close> that leads there: the arity
  is right, the cache holds no unexpired entry for the key and no call is in flight for
  it. Until \<^verbatim>\<open>f\<close> settles, let anything happen that leaves this leader suspended: further
  calls with the same arguments, each at a time when the entry is still expired, calls under
  other keys, settlements of other leaders, \<^verbatim>\<open>clear_cache()\<close>. Then \<^verbatim>\<open>f\<close> has been invoked
  exactly once under that key, with \<open>args\<close>, and when it settles the leader's promise and
  the promise of every one of those calls with the same arguments are settled with the one
  outcome: the result, or the very error \<^verbatim>\<open>f\<close> failed with.
\<close>

theorem coalescing:
  assumes first: "leads args t0 (run (closure options n) es0)"
    and others: "\<forall>e \<in> set es.
        concurrent (run (closure options n) es0) args (promises (run (closure options n) es0)) e"
  shows "let st0 = run (closure options n) es0;
             p = fst (memoized args t0 st0);
             final = resumed p outcome t (run st0 (Call args t0 # es))
         in filter (\<lambda>a. JSON_stringify a = JSON_stringify args) (invoked final) =
              filter (\<lambda>a. JSON_stringify a = JSON_stringify args) (invoked st0) @ [args] \<and>
            settled final p = Some (delivered outcome) \<and>
            (\<forall>i t'. i < length es \<and> es ! i = Call args t' \<longrightarrow>
               settled final (fst (memoized args t' (run st0 (Call args t0 # take i es)))) =
                 Some (delivered outcome))"
proof -
  let ?st0 = "run (closure options n) es0 :: ('a, 'b) memo"
  let ?p = "promises ?st0"
  let ?st1 = "snd (memoized args t0 ?st0)"
  let ?key = "JSON_stringify args"
  have "sound ?st0" by (rule sound_run)
  then have inf1: "in_flight ?st0 args ?p ?st1"
    using first by (rule in_flight_lead)
  have run: "run ?st0 (Call args t0 # xs) = run ?st1 xs" for xs
    by (simp add: run_Cons)
  have inf: "in_flight ?st0 args ?p (run ?st1 es)"
    using inf1 others by (rule in_flight_run)
  have once: "filter (\<lambda>a. JSON_stringify a = ?key) (invoked (run ?st1 es)) =
      filter (\<lambda>a. JSON_stringify a = ?key) (invoked ?st0) @ [args]"
    using inf by (simp add: in_flight_def)
  have leader: "settled (resumed ?p outcome t (run ?st1 es)) ?p = Some (delivered outcome)"
    using inf by (rule in_flight_settled) simp
  have waiter: "settled (resumed ?p outcome t (run ?st1 es)) (promises (run ?st1 (take i es)))
      = Some (delivered outcome)" if "i < length es" "es ! i = Call args t'" for i t'
  proof -
    have "promises (run ?st1 (take i es)) \<in> set (waiters (run ?st1 es) ?key)"
      using inf1 others that by (rule caller_waits)
    then have "promises (run ?st1 (take i es)) = ?p \<or>
        promises (run ?st1 (take i es)) \<in> set (waiters (run ?st1 es) ?key)"
      by simp
    with inf show ?thesis by (rule in_flight_settled)
  qed
  show ?thesis
    unfolding Let_def memoized_fst run resumed_fields
    using once leader waiter by blast
qed

theorem coalescing_witness:
  "(let st0 = closure \<lparr>ttl = 60, size_opt = 2\<rparr> 1 :: (nat, nat) memo;
        final = resumed 0 (Resolved 10) 9
          (run st0 [Call [JNumber (Integral 5)] 0, Call [JNumber (Integral 5)] 1,
                    Call [JNumber (Integral 7)] 2, Call [JNumber (Integral 5)] 3])
    in leads [JNumber (Integral 5)] 0 st0 \<and>
       settled final 0 = Some (Resolved 10) \<and>
       settled final 1 = Some (Resolved 10) \<and>
       settled final 2 = None \<and>
       settled final 3 = Some (Resolved 10) \<and>
       invoked final = [[JNumber (Integral 5)], [JNumber (Integral 7)]])"
proof -
  let ?st0 = "run (closure \<lparr>ttl = 60, size_opt = 2\<rparr> 1) [] :: (nat, nat) memo"
  let ?es = "[Call [JNumber (Integral 5)] 1, Call [JNumber (Integral 7)] 2,
              Call [JNumber (Integral 5)] 3] :: (nat, nat) event list"
  let ?final = "resumed 0 (Resolved 10) 9
      (run ?st0 (Call [JNumber (Integral 5)] 0 # ?es)) :: (nat, nat) memo"
  have first: "leads [JNumber (Integral 5)] 0 ?st0"
    by (simp add: leads_def exec_defs)
  have others: "\<forall>e \<in> set ?es. concurrent ?st0 [JNumber (Integral 5)] (promises ?st0) e"
    by (simp add: exec_defs)
  have p: "promises ?st0 = 0"
    by (simp add: run_def closure_def)
  have "settled ?final 0 = Some (delivered (Resolved 10)) \<and>
      (\<forall>i t'. i < length ?es \<and> ?es ! i = Call [JNumber (Integral 5)] t' \<longrightarrow>
          settled ?final (promises (run ?st0 (Call [JNumber (Integral 5)] 0 # take i ?es))) =
            Some (delivered (Resolved 10)))"
    using coalescing [OF first others, where outcome = "Resolved 10" and t = 9]
    unfolding Let_def memoized_fst p by (rule conjunct2)
  then have leader: "settled ?final 0 = Some (delivered (Resolved 10))"
    and waiters: "\<And>i t'. i < length ?es \<Longrightarrow> ?es ! i = Call [JNumber (Integral 5)] t' \<Longrightarrow>
          settled ?final (promises (run ?st0 (Call [JNumber (Integral 5)] 0 # take i ?es))) =
            Some (delivered (Resolved 10))"
    by blast+
  have d: "delivered (Resolved 10 :: (nat, nat) settlement) = Resolved 10"
    by (simp add: delivered_def)
  have w1: "settled ?final 1 = Some (Resolved 10)"
    using waiters [of 0 1] by (simp add: d run_def closure_def)
  have w3: "settled ?final 3 = Some (Resolved 10)"
    using waiters [of 2 3] by (simp add: d run_def closure_def numeral_3_eq_3)
  have rest: "settled ?final 2 = None \<and>
      invoked ?final = [[JNumber (Integral 5)], [JNumber (Integral 7)]]"
    by (simp add: exec_defs)
  have st0: "?st0 = closure \<lparr>ttl = 60, size_opt = 2\<rparr> 1"
    by (simp add: run_def)
  show ?thesis
    using first leader w1 w3 rest unfolding d st0 Let_def by simp
qed

section \<open>C2: what a store evicts\<close>

text \<open>
  C2, as the code has it. When a leader stores a result under \<open>key\<close>, the new entry is in
  the cache afterwards, and for every other key: if the cache held \<^verbatim>\<open>size\<close> entries or
  more, the entry of the oldest key is gone, whether or not \<open>key\<close> was already in the
  cache; every other entry is untouched, and nothing is evicted from a cache that held
  fewer than \<^verbatim>\<open>size\<close> entries.
\<close>

theorem store_evicts_when_full:
  assumes leader: "awaiting st p = Some key"
  shows "let st' = resumed p (Resolved r) now st;
             full = (maxSize st \<le> int (cache_size st) \<and> cache st \<noteq> [])
         in Map_get (cache st') key =
              Some \<lparr>entry_value = r, entry_expiry = now + 1000 * ttl (opts st)\<rparr> \<and>
            (\<forall>k. k \<noteq> key \<longrightarrow>
               Map_get (cache st') k =
                 (if full \<and> k = hd (Map_keys (cache st)) then None else Map_get (cache st) k))"
proof -
  have "Map_get (evict (maxSize st) (cache st)) k =
      (if (maxSize st \<le> int (cache_size st) \<and> cache st \<noteq> []) \<and> k = hd (Map_keys (cache st))
       then None else Map_get (cache st) k)" for k
    by (cases "cache st") (auto simp add: evict_def cache_size_def Map_size_def Map_keys_def)
  then show ?thesis
    using leader by (simp add: cache_resumed_Resolved Let_def)
qed

theorem store_evicts_when_full_witness:
  "(let st = run (closure \<lparr>ttl = 1, size_opt = 2\<rparr> 1 :: (nat, nat) memo)
               [Call [JNumber (Integral 1)] 0, Settles 0 (Resolved 10) 0,
                Call [JNumber (Integral 2)] 0, Settles 1 (Resolved 20) 0,
                Call [JNumber (Integral 2)] 5000];
        st' = resumed 2 (Resolved 21) 5000 st
    in awaiting st 2 = Some ''[2]'' \<and>
       Map_keys (cache st) = [''[1]'', ''[2]''] \<and>
       Map_get (cache st') ''[2]'' = Some \<lparr>entry_value = 21, entry_expiry = 6000\<rparr> \<and>
       Map_get (cache st') ''[1]'' = None)"
proof -
  define st :: "(nat, nat) memo" where
    "st = run (closure \<lparr>ttl = 1, size_opt = 2\<rparr> 1)
       [Call [JNumber (Integral 1)] 0, Settles 0 (Resolved 10) 0,
        Call [JNumber (Integral 2)] 0, Settles 1 (Resolved 20) 0,
        Call [JNumber (Integral 2)] 5000]"
  define st' where "st' = resumed 2 (Resolved 21) 5000 st"
  have leader: "awaiting st 2 = Some ''[2]''"
    by (simp add: st_def exec_defs)
  have before: "cache st = [(''[1]'', \<lparr>entry_value = 10, entry_expiry = 1000\<rparr>),
      (''[2]'', \<lparr>entry_value = 20, entry_expiry = 1000\<rparr>)]"
    by (simp add: st_def exec_defs)
  have config: "maxSize st = 2" "ttl (opts st) = 1"
    by (simp_all add: st_def run_config closure_config)
  have keys: "Map_keys (cache st) = [''[1]'', ''[2]'']"
    unfolding before by (simp add: Map_keys_def)
  note inst = store_evicts_when_full [OF leader, where r = 21 and now = 5000,
    unfolded Let_def, folded st'_def]
  have stored: "Map_get (cache st') ''[2]'' = Some \<lparr>entry_value = 21, entry_expiry = 6000\<rparr>"
    using conjunct1 [OF inst] by (simp add: config)
  have evicted: "Map_get (cache st') ''[1]'' = None"
    using conjunct2 [OF inst, rule_format, of "''[1]''"] unfolding cache_size_def before
    by (simp add: config Map_size_def Map_keys_def)
  show ?thesis
    unfolding Let_def using leader keys stored evicted
    by (fold st_def, fold st'_def) simp
qed

text \<open>
  C2 as stated fails: with \<^verbatim>\<open>size\<close> 2 and both entries expired, a leader that stores the
  second key again, a key already present, evicts the first, and the cache is left with
  one entry.
\<close>

theorem update_evicts_other_entry:
  "(let st = run (closure \<lparr>ttl = 1, size_opt = 2\<rparr> 1 :: (nat, nat) memo)
        [Call [JNumber (Integral 1)] 0, Settles 0 (Resolved 10) 0,
         Call [JNumber (Integral 2)] 0, Settles 1 (Resolved 20) 0,
         Call [JNumber (Integral 2)] 5000];
       st' = resumed 2 (Resolved 21) 5000 st
    in awaiting st 2 = Some ''[2]'' \<and> Map_has (cache st) ''[2]'' \<and> Map_has (cache st) ''[1]''
       \<and> int (cache_size st) = maxSize st
       \<and> \<not> Map_has (cache st') ''[1]'' \<and> cache_size st' = 1)"
  by (simp add: exec_defs)

section \<open>C3: the key of an argument list\<close>

text \<open>
  C3. The number 1 and the string \<^verbatim>\<open>"1"\<close> have different keys, but the key is not
  injective: \<^verbatim>\<open>NaN\<close>, \<^verbatim>\<open>Infinity\<close> and \<^verbatim>\<open>undefined\<close> are all written \<^verbatim>\<open>null\<close>, so
  the argument lists \<^verbatim>\<open>[NaN]\<close> and \<^verbatim>\<open>[Infinity]\<close> share the key \<^verbatim>\<open>[null]\<close>, and a call
  with \<^verbatim>\<open>Infinity\<close> is served the result cached for \<^verbatim>\<open>NaN\<close> without invoking \<^verbatim>\<open>f\<close>.
\<close>

theorem key_collision:
  "[JNumber NaN] \<noteq> [JNumber PosInfinity] \<and>
   JSON_stringify [JNumber NaN] = ''[null]'' \<and>
   JSON_stringify [JNumber PosInfinity] = ''[null]'' \<and>
   JSON_stringify [JUndefined] = ''[null]'' \<and>
   JSON_stringify [JNumber (Integral 1)] \<noteq> JSON_stringify [JString ''1''] \<and>
   (let st = run (closure \<lparr>ttl = 60, size_opt = 2\<rparr> 1 :: (nat, nat) memo)
        [Call [JNumber NaN] 0, Settles 0 (Resolved 7) 0, Call [JNumber PosInfinity] 1]
    in settled st 1 = Some (Resolved 7) \<and> invoked st = [[JNumber NaN]])"
  by (simp add: exec_defs)

section \<open>C4: construction\<close>

text \<open>
  C4, as the code has it. \<^verbatim>\<open>memoize_async\<close> validates nothing: for every \<^verbatim>\<open>ttl\<close> and
  every \<^verbatim>\<open>size\<close> it returns a memoizer with the options as given, an empty cache and an
  empty queue.
\<close>

theorem construction_never_fails:
  "\<exists>m. memoize_async options n = Inr m \<and> opts m = options \<and> maxSize m = size_opt options \<and>
       f_length m = n \<and> cache_size m = 0 \<and> queue m = []"
  by (simp add: memoize_async_def closure_def cache_size_def Map_size_def)

text \<open>
  C4 as stated fails: a negative \<^verbatim>\<open>ttl\<close> and a \<^verbatim>\<open>size\<close> of zero are accepted, and the
  memoizer built from them serves calls (and then holds one entry).
\<close>

theorem construction_accepts_invalid_options:
  "(memoize_async \<lparr>ttl = - 1, size_opt = 0\<rparr> 1 :: string + (nat, nat) memo) =
     Inr (closure \<lparr>ttl = - 1, size_opt = 0\<rparr> 1) \<and>
   \<not> isl (memoize_async \<lparr>ttl = - 1, size_opt = 0\<rparr> 1 :: string + (nat, nat) memo) \<and>
   cache_size (run (closure \<lparr>ttl = - 1, size_opt = 0\<rparr> 1 :: (nat, nat) memo)
     [Call [JNumber (Integral 1)] 0, Settles 0 (Resolved 2) 0]) = 1"
  by (simp add: memoize_async_def exec_defs)

section \<open>C5: the cache is bounded and evicts the oldest entry\<close>

text \<open>
  C5. For a memoizer built with a \<^verbatim>\<open>size\<close> of at least 1, after any run the cache holds at
  most \<^verbatim>\<open>size\<close> entries. When the cache holds exactly \<^verbatim>\<open>size\<close> entries and a leader
  stores a key that is not in it, the first entry in insertion order is removed, the rest
  keep their order and the new entry comes last; the count stays at \<^verbatim>\<open>size\<close>. No call
  changes the cache, a cache hit included, so a read never reorders it.
\<close>

theorem cache_bounded_fifo:
  "let st = run (closure options n) es
   in (1 \<le> size_opt options \<longrightarrow> int (cache_size st) \<le> size_opt options) \<and>
      (\<forall>p key r now.
         1 \<le> size_opt options \<and> int (cache_size st) = size_opt options \<and>
         awaiting st p = Some key \<and> \<not> Map_has (cache st) key \<longrightarrow>
           cache (resumed p (Resolved r) now st) =
             tl (cache st) @ [(key, \<lparr>entry_value = r, entry_expiry = now + 1000 * ttl options\<rparr>)] \<and>
           cache_size (resumed p (Resolved r) now st) = cache_size st) \<and>
      (\<forall>args now. cache (snd (memoized args now st)) = cache st)"
proof -
  let ?st = "run (closure options n) es :: ('a, 'b) memo"
  have ok: "cache_ok ?st"
    using sound_run[of options n es] by (simp add: sound_def)
  have bound: "int (cache_size ?st) \<le> size_opt options" if "1 \<le> size_opt options"
    using ok that by (simp add: cache_ok_def cache_size_def run_config closure_config)
  have fifo: "cache (resumed p (Resolved r) now ?st) =
        tl (cache ?st) @ [(key, \<lparr>entry_value = r, entry_expiry = now + 1000 * ttl options\<rparr>)] \<and>
      cache_size (resumed p (Resolved r) now ?st) = cache_size ?st"
    if full: "1 \<le> size_opt options" "int (cache_size ?st) = size_opt options"
      and leader: "awaiting ?st p = Some key" and new: "\<not> Map_has (cache ?st) key"
    for p key r now
  proof -
    let ?e = "\<lparr>entry_value = r, entry_expiry = now + 1000 * ttl options\<rparr>"
    have "cache ?st \<noteq> []"
      using full by (auto simp add: cache_size_def Map_size_def)
    then obtain k v m where c: "cache ?st = (k, v) # m"
      by (cases "cache ?st") auto
    have "distinct (Map_keys ((k, v) # m))"
      using ok c by (simp add: cache_ok_def)
    then have del: "Map_delete ((k, v) # m) k = m"
      by (rule Map_delete_oldest)
    have ev: "evict (maxSize ?st) (cache ?st) = m"
      using full del
      by (simp add: evict_def c cache_size_def Map_size_def Map_keys_def run_config closure_config)
    have "Map_get m key = None"
      using new by (simp add: Map_has_def c split: if_splits)
    then have "Map_set m key ?e = m @ [(key, ?e)]"
      by (rule Map_set_absent)
    then have "cache (resumed p (Resolved r) now ?st) = m @ [(key, ?e)]"
      using leader ev by (simp add: cache_resumed_Resolved run_config closure_config)
    then show ?thesis
      by (simp add: c cache_size_def Map_size_def)
  qed
  have reads: "cache (snd (memoized args now ?st)) = cache ?st" for args now
    by simp
  show ?thesis
    unfolding Let_def using bound fifo reads by blast
qed

theorem cache_bounded_fifo_witness:
  "(let st = run (closure \<lparr>ttl = 60, size_opt = 2\<rparr> 1 :: (nat, nat) memo)
               [Call [JNumber (Integral 1)] 0, Settles 0 (Resolved 2) 0,
                Call [JNumber (Integral 1)] 1,
                Call [JNumber (Integral 2)] 2, Settles 2 (Resolved 4) 2,
                Call [JNumber (Integral 3)] 3];
        st' = resumed 3 (Resolved 6) 4 st
    in (1::int) \<le> 2 \<and> cache_size st = 2 \<and> awaiting st 3 = Some ''[3]'' \<and>
       \<not> Map_has (cache st) ''[3]'' \<and>
       settled st 1 = Some (Resolved 2) \<and>
       Map_keys (cache st) = [''[1]'', ''[2]''] \<and>
       Map_keys (cache st') = [''[2]'', ''[3]''] \<and>
       cache_size st' = 2)"
proof -
  define es :: "(nat, nat) event list" where
    "es = [Call [JNumber (Integral 1)] 0, Settles 0 (Resolved 2) 0,
           Call [JNumber (Integral 1)] 1,
           Call [JNumber (Integral 2)] 2, Settles 2 (Resolved 4) 2,
           Call [JNumber (Integral 3)] 3]"
  define st :: "(nat, nat) memo" where "st = run (closure \<lparr>ttl = 60, size_opt = 2\<rparr> 1) es"
  define st' where "st' = resumed 3 (Resolved 6) 4 st"
  note inst = cache_bounded_fifo [of "\<lparr>ttl = 60, size_opt = 2\<rparr>" 1 es, unfolded Let_def,
    folded st_def]
  have before: "cache st = [(''[1]'', \<lparr>entry_value = 2, entry_expiry = 60000\<rparr>),
      (''[2]'', \<lparr>entry_value = 4, entry_expiry = 60002\<rparr>)]"
    by (simp add: st_def es_def exec_defs)
  have leader: "awaiting st 3 = Some ''[3]''"
    by (simp add: st_def es_def exec_defs)
  have hit: "settled st 1 = Some (Resolved 2)"
    by (simp add: st_def es_def exec_defs)
  have size: "cache_size st = 2" and new: "\<not> Map_has (cache st) ''[3]''"
    and keys: "Map_keys (cache st) = [''[1]'', ''[2]'']"
    unfolding before cache_size_def by (simp_all add: Map_size_def Map_has_def Map_keys_def)
  have pre: "1 \<le> size_opt \<lparr>ttl = 60, size_opt = 2\<rparr> \<and>
      int (cache_size st) = size_opt \<lparr>ttl = 60, size_opt = 2\<rparr> \<and>
      awaiting st 3 = Some ''[3]'' \<and> \<not> Map_has (cache st) ''[3]''"
    using size leader new by simp
  note fifo = conjunct1 [OF conjunct2 [OF inst], rule_format, OF pre,
    where r = 6 and now = 4, folded st'_def]
  have after: "cache st' = [(''[2]'', \<lparr>entry_value = 4, entry_expiry = 60002\<rparr>),
      (''[3]'', \<lparr>entry_value = 6, entry_expiry = 60004\<rparr>)]"
    using conjunct1 [OF fifo] unfolding before by simp
  have keys': "Map_keys (cache st') = [''[2]'', ''[3]'']" and size': "cache_size st' = 2"
    unfolding after cache_size_def by (simp_all add: Map_size_def Map_keys_def)
  show ?thesis
    unfolding Let_def using size leader new hit keys keys' size'
    by (fold es_def, fold st_def, fold st'_def) simp
qed

section \<open>C6: a failure is not cached\<close>

text \<open>
  C6. Take a call with \<open>args\<close> that leads in a reachable state, at time \<open>t0\<close>, then anything
  that leaves this leader suspended, then the failure of \<^verbatim>\<open>f\<close> with \<open>err\<close>. The leader's
  call left the cache as it was, and so does the failure: no entry is stored, and the
  entry under the key is the one from before the leader's call or none. The in-flight
  record of the key is gone, the leader is rejected with \<open>err\<close>, and the next call with
  \<open>args\<close>, at a time \<open>t2\<close> not before \<open>t0\<close>, leads again: it invokes \<^verbatim>\<open>f\<close> and suspends.
\<close>

theorem failure_not_cached:
  assumes first: "leads args t0 (run (closure options n) es0)"
    and others: "\<forall>e \<in> set es.
        concurrent (run (closure options n) es0) args (promises (run (closure options n) es0)) e"
    and later: "t0 \<le> t2"
  shows "let st0 = run (closure options n) es0;
             key = JSON_stringify args;
             p = fst (memoized args t0 st0);
             st1 = run st0 (Call args t0 # es);
             st2 = resumed p (Rejected err) t1 st1;
             st3 = snd (memoized args t2 st2)
         in cache (snd (memoized args t0 st0)) = cache st0 \<and>
            cache st2 = cache st1 \<and>
            (Map_get (cache st2) key = None \<or> Map_get (cache st2) key = Map_get (cache st0) key) \<and>
            \<not> Map_has (queue st2) key \<and>
            awaiting st2 p = None \<and>
            settled st2 p = Some (Rejected (Thrown err)) \<and>
            leads args t2 st2 \<and>
            invoked st3 = invoked st2 @ [args] \<and>
            awaiting st3 (fst (memoized args t2 st2)) = Some key \<and>
            settled st3 (fst (memoized args t2 st2)) = None"
proof -
  let ?st0 = "run (closure options n) es0 :: ('a, 'b) memo"
  let ?p = "promises ?st0"
  let ?st1 = "snd (memoized args t0 ?st0)"
  let ?key = "JSON_stringify args"
  let ?st2 = "resumed ?p (Rejected err) t1 (run ?st1 es)"
  let ?st3 = "snd (memoized args t2 ?st2)"
  have "sound ?st0" by (rule sound_run)
  then have inf1: "in_flight ?st0 args ?p ?st1"
    using first by (rule in_flight_lead)
  have run: "run ?st0 (Call args t0 # es) = run ?st1 es"
    by (simp add: run_Cons)
  have inf: "in_flight ?st0 args ?p (run ?st1 es)"
    using inf1 others by (rule in_flight_run)
  then have aw: "awaiting (run ?st1 es) ?p = Some ?key"
    and len: "f_length (run ?st1 es) = length args"
    and ent: "Map_get (cache (run ?st1 es)) ?key = None \<or>
        Map_get (cache (run ?st1 es)) ?key = Map_get (cache ?st0) ?key"
    by (simp_all add: in_flight_def)
  have c2: "cache ?st2 = cache (run ?st1 es)"
    by (rule cache_resumed_Rejected)
  have q2: "\<not> Map_has (queue ?st2) ?key"
    using aw by (simp add: queue_resumed Map_has_def)
  have a2: "awaiting ?st2 ?p = None"
    by (simp add: awaiting_resumed)
  have "settled ?st2 ?p = Some (delivered (Rejected err))"
    using inf by (rule in_flight_settled) simp
  then have s2: "settled ?st2 ?p = Some (Rejected (Thrown err))"
    by (simp add: delivered_def)
  have "lookup ?st0 ?key t0 = None"
    using first by (simp add: leads_def)
  then have "lookup ?st0 ?key t2 = None"
    using later by (rule lookup_expired_later)
  with inf have "lookup (run ?st1 es) ?key t2 = None"
    by (rule in_flight_lookup)
  then have l2: "lookup ?st2 ?key t2 = None"
    using c2 lookup_cong_entry[of ?st2 ?key "run ?st1 es" t2] by simp
  have leads2: "leads args t2 ?st2"
    using l2 q2 len by (simp add: leads_def)
  have i3: "invoked ?st3 = invoked ?st2 @ [args]"
    using leads2 by (simp add: invoked_memoized)
  have a3: "awaiting ?st3 (promises ?st2) = Some ?key"
    using leads2 by (simp add: awaiting_memoized)
  have s3: "settled ?st3 (promises ?st2) = None"
    using l2 len settled_memoized_new[of args t2 ?st2] by simp
  show ?thesis
    unfolding Let_def memoized_fst run
    using c2 ent q2 a2 s2 leads2 i3 a3 s3 by (simp add: c2)
qed

theorem failure_not_cached_witness:
  "(let st0 = closure \<lparr>ttl = 60, size_opt = 2\<rparr> 1 :: (nat, nat) memo;
        st2 = resumed 0 (Rejected 3) 2
          (run st0 [Call [JNumber (Integral 5)] 0, Call [JNumber (Integral 5)] 1]);
        st3 = snd (memoized [JNumber (Integral 5)] 4 st2)
    in leads [JNumber (Integral 5)] 0 st0 \<and> (0::int) \<le> 4 \<and>
       cache st2 = [] \<and> queue st2 = [] \<and>
       settled st2 0 = Some (Rejected (Thrown 3)) \<and>
       settled st2 1 = Some (Rejected (Thrown 3)) \<and>
       invoked st2 = [[JNumber (Integral 5)]] \<and>
       invoked st3 = [[JNumber (Integral 5)], [JNumber (Integral 5)]] \<and>
       awaiting st3 2 = Some ''[5]'')"
proof -
  let ?a = "[JNumber (Integral 5)]"
  let ?st0 = "run (closure \<lparr>ttl = 60, size_opt = 2\<rparr> 1) [] :: (nat, nat) memo"
  let ?es = "[Call ?a 1] :: (nat, nat) event list"
  let ?st2 = "resumed (promises ?st0) (Rejected 3) 2 (run ?st0 (Call ?a 0 # ?es))"
  have first: "leads ?a 0 ?st0"
    by (simp add: leads_def exec_defs)
  have others: "\<forall>e \<in> set ?es. concurrent ?st0 ?a (promises ?st0) e"
    by (simp add: exec_defs)
  have later: "(0::int) \<le> 4"
    by simp
  have "invoked (snd (memoized ?a 4 ?st2)) = invoked ?st2 @ [?a]"
    using failure_not_cached [OF first others later, where err = 3 and ?t1.0 = 2]
    unfolding Let_def memoized_fst by blast
  moreover have "invoked ?st2 = [?a]"
    by (simp add: exec_defs)
  ultimately have again: "invoked (snd (memoized ?a 4 ?st2)) = [?a, ?a]"
    by simp
  have rest: "cache ?st2 = [] \<and> queue ?st2 = [] \<and>
      settled ?st2 0 = Some (Rejected (Thrown 3)) \<and>
      settled ?st2 1 = Some (Rejected (Thrown 3)) \<and>
      invoked ?st2 = [?a] \<and>
      awaiting (snd (memoized ?a 4 ?st2)) 2 = Some ''[5]''"
    by (simp add: exec_defs)
  show ?thesis
    using first again rest by (simp add: run_Nil Let_def closure_def)
qed

section \<open>C7: a call with the wrong number of arguments\<close>

text \<open>
  C7. In every state of the memoizer (any cache, any in-flight records), a call whose
  argument count differs from \<^verbatim>\<open>f.length\<close> returns a promise that is rejected within the
  call itself with the arity error, whose text depends on the two counts only; \<^verbatim>\<open>f\<close> is
  not invoked, no leader is suspended, and the cache and the queue are what they were.
\<close>

theorem arity_mismatch:
  assumes "length args \<noteq> f_length st"
  shows "fst (memoized args now st) = promises st \<and>
     settled (snd (memoized args now st)) (promises st) =
       Some (Rejected (InvalidArity (length args) (f_length st))) \<and>
     invoked (snd (memoized args now st)) = invoked st \<and>
     awaiting (snd (memoized args now st)) = awaiting st \<and>
     cache (snd (memoized args now st)) = cache st \<and>
     queue (snd (memoized args now st)) = queue st"
  using assms by (simp add: memoized_mismatch settled_settle)

theorem arity_mismatch_witness:
  "length [JNumber (Integral 1), JNumber (Integral 2)]
     \<noteq> f_length (closure \<lparr>ttl = 60, size_opt = 2\<rparr> 1 :: (nat, nat) memo) \<and>
   settled (snd (memoized [JNumber (Integral 1), JNumber (Integral 2)] 0
       (closure \<lparr>ttl = 60, size_opt = 2\<rparr> 1 :: (nat, nat) memo))) 0 =
     Some (Rejected (Error ''Invalid number of arguments passed (2 != 1) or used spread operator''))"
  using arity_mismatch [of "[JNumber (Integral 1), JNumber (Integral 2)]"
      "closure \<lparr>ttl = 60, size_opt = 2\<rparr> 1 :: (nat, nat) memo" 0]
  by (simp add: closure_def InvalidArity_def decimal.simps digit_char_def)

section \<open>C8: the expiry of a stored entry\<close>

text \<open>
  C8. The expiry is not always the store time plus \<^verbatim>\<open>ttl\<close> seconds. In New York, with a
  \<^verbatim>\<open>ttl\<close> of 60, a result stored at 05:59:30 UTC on 3 November 2024, thirty seconds before
  the clocks go back, gets an expiry 3660 seconds after the store, so the check
  \<^verbatim>\<open>entry.expiry > new Date()\<close> still serves it 61 seconds after the store; a result stored at
  06:30:00 UTC, in the repeated hour, gets an expiry 3540 seconds before the store, so
  it is never served.
\<close>

theorem expiry_an_hour_off:
  "getSeconds new_york 1730613570000 = 30 \<and>
   expiry_date new_york 1730613570000 60 = Some (1730613570000 + 3660000) \<and>
   fresh \<lparr>entry_value = (7::nat), entry_expiry = 1730613570000 + 3660000\<rparr>
     (1730613570000 + 61000) \<and>
   expiry_date new_york 1730615400000 60 = Some (1730615400000 - 3540000) \<and>
   \<not> fresh \<lparr>entry_value = (7::nat), entry_expiry = 1730615400000 - 3540000\<rparr> 1730615400000"
  by (simp add: expiry_date_local new_york_def LocalTime_def UTC_def TimeClip_def fresh_def
      getSeconds_def SecFromTime_def)

section \<open>C9: clearing the cache\<close>

text \<open>
  C9. In every reachable state, \<^verbatim>\<open>clear_cache()\<close> leaves an empty cache
  (\<^verbatim>\<open>cache_size()\<close> is 0) and changes nothing else: the queue, the suspended leaders and
  the settled promises are what they were. When a leader suspended at the clear is resumed
  afterwards, with any outcome, its promise and the promise of every waiter of its key
  settle with that outcome, exactly as they would have without the clear.
\<close>

theorem clear_cache_keeps_in_flight:
  "let st = run (closure options n) es;
       st' = clear_cache st
   in cache_size st' = 0 \<and> cache st' = [] \<and>
      queue st' = queue st \<and> awaiting st' = awaiting st \<and> settled st' = settled st \<and>
      invoked st' = invoked st \<and> promises st' = promises st \<and>
      (\<forall>p key outcome t. awaiting st p = Some key \<longrightarrow>
         settled (resumed p outcome t st') p = Some (delivered outcome) \<and>
         (\<forall>h \<in> set (waiters st key).
            settled (resumed p outcome t st') h = Some (delivered outcome)) \<and>
         settled (resumed p outcome t st') = settled (resumed p outcome t st) \<and>
         queue (resumed p outcome t st') = queue (resumed p outcome t st) \<and>
         awaiting (resumed p outcome t st') = awaiting (resumed p outcome t st))"
proof -
  let ?st = "run (closure options n) es :: ('a, 'b) memo"
  let ?st' = "clear_cache ?st"
  have sound: "sound ?st'"
    by (simp add: sound_clear sound_run)
  have completes: "settled (resumed p outcome t ?st') q = Some (delivered outcome)"
    if "awaiting ?st p = Some key" "q = p \<or> q \<in> set (waiters ?st key)" for p key outcome t q
    using sound that by (intro sound_settled_resumed[where key = key]) simp_all
  have same: "settled (resumed p outcome t ?st') = settled (resumed p outcome t ?st) \<and>
      queue (resumed p outcome t ?st') = queue (resumed p outcome t ?st) \<and>
      awaiting (resumed p outcome t ?st') = awaiting (resumed p outcome t ?st)"
    if "awaiting ?st p = Some key" for p key outcome t
  proof -
    have "settled (resumed p outcome t ?st') q = settled (resumed p outcome t ?st) q" for q
      using that by (simp add: settled_resumed)
    then have "settled (resumed p outcome t ?st') = settled (resumed p outcome t ?st)"
      by (rule ext)
    then show ?thesis
      using that by (simp add: queue_resumed awaiting_resumed)
  qed
  have frame: "cache_size ?st' = 0 \<and> cache ?st' = [] \<and>
      queue ?st' = queue ?st \<and> awaiting ?st' = awaiting ?st \<and> settled ?st' = settled ?st \<and>
      invoked ?st' = invoked ?st \<and> promises ?st' = promises ?st"
    by (simp add: cache_size_def Map_size_def)
  show ?thesis
    unfolding Let_def using frame completes same by blast
qed

theorem clear_cache_keeps_in_flight_witness:
  "(let st = run (closure \<lparr>ttl = 60, size_opt = 2\<rparr> 1 :: (nat, nat) memo)
               [Call [JNumber (Integral 7)] 0, Settles 0 (Resolved 14) 1,
                Call [JNumber (Integral 5)] 2, Call [JNumber (Integral 5)] 3];
        st' = clear_cache st
    in cache_size st = 1 \<and> awaiting st 1 = Some ''[5]'' \<and> waiters st ''[5]'' = [2] \<and>
       cache_size st' = 0 \<and>
       settled (resumed 1 (Resolved 10) 5 st') 1 = Some (Resolved 10) \<and>
       settled (resumed 1 (Resolved 10) 5 st') 2 = Some (Resolved 10))"
proof -
  let ?st = "run (closure \<lparr>ttl = 60, size_opt = 2\<rparr> 1 :: (nat, nat) memo)
      [Call [JNumber (Integral 7)] 0, Settles 0 (Resolved 14) 1,
       Call [JNumber (Integral 5)] 2, Call [JNumber (Integral 5)] 3]"
  let ?st' = "clear_cache ?st"
  note inst = clear_cache_keeps_in_flight
    [of "\<lparr>ttl = 60, size_opt = 2\<rparr>" 1
      "[Call [JNumber (Integral 7)] 0, Settles 0 (Resolved 14) 1,
        Call [JNumber (Integral 5)] 2, Call [JNumber (Integral 5)] 3] :: (nat, nat) event list",
     unfolded Let_def]
  have empty: "cache_size ?st' = 0"
    by (rule conjunct1 [OF inst])
  have leader: "awaiting ?st 1 = Some ''[5]''"
    by (simp add: exec_defs)
  have waiting: "waiters ?st ''[5]'' = [2]"
    by (simp add: waiters_def exec_defs)
  have size: "cache_size ?st = 1"
    by (simp add: exec_defs)
  note after = conjunct2 [OF conjunct2 [OF conjunct2 [OF conjunct2 [OF conjunct2
    [OF conjunct2 [OF conjunct2 [OF inst]]]]]], rule_format, OF leader,
    where outcome = "Resolved 10" and t = 5]
  have d: "delivered (Resolved 10 :: (nat, nat) settlement) = Resolved 10"
    by (simp add: delivered_def)
  have s1: "settled (resumed 1 (Resolved 10) 5 ?st') 1 = Some (Resolved 10)"
    using conjunct1 [OF after] by (simp only: d)
  have "\<forall>h \<in> set (waiters ?st ''[5]'').
      settled (resumed 1 (Resolved 10) 5 ?st') h = Some (delivered (Resolved 10))"
    by (rule conjunct1 [OF conjunct2 [OF after]])
  then have s2: "settled (resumed 1 (Resolved 10) 5 ?st') 2 = Some (Resolved 10)"
    unfolding waiting d by simp
  show ?thesis
    unfolding Let_def using size leader waiting empty s1 s2 by (intro conjI)
qed

section \<open>C10: the result is stored before any waiter is resolved\<close>

text \<open>
  C10, as the code has it. When a leader of \<open>key\<close> is resumed with a result, its journal
  grows by, in this order: the eviction if there is one, the \<^verbatim>\<open>cache.set\<close> of \<open>key\<close>, the
  \<^verbatim>\<open>queue.delete\<close> of \<open>key\<close>, the settlement of each waiter in the order they joined, and
  the settlement of the leader. So whenever a waiter's handle is resolved, with the
  journal at the writes and the settlements of the waiters before it, the cache holds the
  result under \<open>key\<close> and the queue has no record for \<open>key\<close>; so it is at the end.
\<close>

theorem stored_then_resolved:
  assumes leader: "awaiting st p = Some key"
  shows "let entry = \<lparr>entry_value = r, entry_expiry = now + 1000 * ttl (opts st)\<rparr>;
             ws = waiters st key;
             st2 = snd (succeeded key r now (st\<lparr>awaiting := (awaiting st)(p := None)\<rparr>));
             written = journal st @ evicted (maxSize st) (cache st)
                         @ [Cache_set key, Queue_delete key];
             st' = resumed p (Resolved r) now st
         in journal st' = written @ map Settle ws @ [Settle p] \<and>
            st' = settle p (Resolved r) (settle_all ws (Resolved r) st2) \<and>
            (\<forall>i. i \<le> length ws \<longrightarrow>
               journal (settle_all (take i ws) (Resolved r) st2) = written @ map Settle (take i ws) \<and>
               Map_get (cache (settle_all (take i ws) (Resolved r) st2)) key = Some entry \<and>
               \<not> Map_has (queue (settle_all (take i ws) (Resolved r) st2)) key) \<and>
            Map_get (cache st') key = Some entry \<and>
            \<not> Map_has (queue st') key"
proof -
  let ?entry = "\<lparr>entry_value = r, entry_expiry = now + 1000 * ttl (opts st)\<rparr>"
  let ?ws = "waiters st key"
  let ?st1 = "st\<lparr>awaiting := (awaiting st)(p := None)\<rparr>"
  let ?st2 = "snd (succeeded key r now ?st1)"
  let ?written = "journal st @ evicted (maxSize st) (cache st) @ [Cache_set key, Queue_delete key]"
  let ?st' = "resumed p (Resolved r) now st"
  have run: "?st' = settle p (Resolved r) (settle_all ?ws (Resolved r) ?st2)"
    using leader by (rule resumed_Resolved)
  have j2: "journal ?st2 = ?written"
    by (simp add: journal_succeeded)
  have c2: "Map_get (cache ?st2) key = Some ?entry"
    by (simp add: succeeded_def store_def take_handlers_def Let_def)
  have q2: "\<not> Map_has (queue ?st2) key"
    by (simp add: succeeded_def store_def take_handlers_def Let_def Map_has_def)
  have during: "journal (settle_all hs (Resolved r) ?st2) = ?written @ map Settle hs \<and>
      Map_get (cache (settle_all hs (Resolved r) ?st2)) key = Some ?entry \<and>
      \<not> Map_has (queue (settle_all hs (Resolved r) ?st2)) key" for hs
    using j2 c2 q2 by (simp add: journal_settle_all)
  have journal: "journal ?st' = ?written @ map Settle ?ws @ [Settle p]"
    unfolding run by (simp add: journal_settle journal_settle_all j2)
  have final: "Map_get (cache ?st') key = Some ?entry \<and> \<not> Map_has (queue ?st') key"
    unfolding run using c2 q2 by simp
  show ?thesis
    unfolding Let_def using journal run during final by blast
qed

theorem stored_then_resolved_witness:
  "(let st = run (closure \<lparr>ttl = 60, size_opt = 1\<rparr> 1 :: (nat, nat) memo)
               [Call [JNumber (Integral 7)] 0, Settles 0 (Resolved 14) 1,
                Call [JNumber (Integral 5)] 2, Call [JNumber (Integral 5)] 3];
        st' = resumed 1 (Resolved 10) 5 st
    in awaiting st 1 = Some ''[5]'' \<and> waiters st ''[5]'' = [2] \<and>
       journal st' = journal st @
         [Cache_delete ''[7]'', Cache_set ''[5]'', Queue_delete ''[5]'', Settle 2, Settle 1] \<and>
       Map_get (cache st') ''[5]'' = Some \<lparr>entry_value = 10, entry_expiry = 60005\<rparr> \<and>
       settled st' 2 = Some (Resolved 10))"
proof -
  define st :: "(nat, nat) memo" where
    "st = run (closure \<lparr>ttl = 60, size_opt = 1\<rparr> 1)
       [Call [JNumber (Integral 7)] 0, Settles 0 (Resolved 14) 1,
        Call [JNumber (Integral 5)] 2, Call [JNumber (Integral 5)] 3]"
  define st' where "st' = resumed 1 (Resolved 10) 5 st"
  have leader: "awaiting st 1 = Some ''[5]''"
    by (simp add: st_def exec_defs)
  have waiting: "waiters st ''[5]'' = [2]"
    by (simp add: st_def waiters_def exec_defs)
  have before: "cache st = [(''[7]'', \<lparr>entry_value = 14, entry_expiry = 60001\<rparr>)]"
    by (simp add: st_def exec_defs)
  have config: "maxSize st = 1" "ttl (opts st) = 60"
    by (simp_all add: st_def run_config closure_config)
  note inst = stored_then_resolved [OF leader, where r = 10 and now = 5,
    unfolded Let_def, folded st'_def]
  have "journal st' = (journal st @ evicted (maxSize st) (cache st)
      @ [Cache_set ''[5]'', Queue_delete ''[5]'']) @ map Settle (waiters st ''[5]'') @ [Settle 1]"
    by (rule conjunct1 [OF inst])
  then have order: "journal st' = journal st @
      [Cache_delete ''[7]'', Cache_set ''[5]'', Queue_delete ''[5]'', Settle 2, Settle 1]"
    unfolding waiting before config
    by (simp add: evicted_def Map_size_def Map_keys_def)
  have stored: "Map_get (cache st') ''[5]'' = Some \<lparr>entry_value = 10, entry_expiry = 60005\<rparr>"
    using conjunct1 [OF conjunct2 [OF conjunct2 [OF conjunct2 [OF inst]]]]
    by (simp add: config)
  have resolved: "settled st' 2 = Some (Resolved 10)"
    by (simp add: st'_def st_def exec_defs)
  show ?thesis
    unfolding Let_def using leader waiting order stored resolved
    by (fold st_def, fold st'_def) simp
qed

text \<open>
  C10 as stated fails for the moment a waiter observes the result. The waiter's own code
  continues in a later job than the one that resolved its handle, and another stretch of
  code can run before it. With \<^verbatim>\<open>size\<close> 1 and \<^verbatim>\<open>ttl\<close> 0: once the leader of \<^verbatim>\<open>[1]\<close>
  has stored and resolved its waiter, the store of the leader of \<^verbatim>\<open>[2]\<close> evicts the entry
  of \<^verbatim>\<open>[1]\<close>, and a new call with \<^verbatim>\<open>[1]\<close> opens a new in-flight record for it; either
  can happen while the waiter is settled and has not yet continued.
\<close>

theorem waiter_may_find_entry_gone:
  "(let st = run (closure \<lparr>ttl = 0, size_opt = 1\<rparr> 1 :: (nat, nat) memo)
               [Call [JNumber (Integral 1)] 0, Call [JNumber (Integral 1)] 0,
                Call [JNumber (Integral 2)] 0, Settles 0 (Resolved 10) 1];
        evicted_then = step st (Settles 2 (Resolved 20) 1);
        called_then = step st (Call [JNumber (Integral 1)] 1)
    in settled st 1 = Some (Resolved 10) \<and>
       Map_has (cache st) ''[1]'' \<and> \<not> Map_has (queue st) ''[1]'' \<and>
       settled evicted_then 1 = Some (Resolved 10) \<and> \<not> Map_has (cache evicted_then) ''[1]'' \<and>
       settled called_then 1 = Some (Resolved 10) \<and> Map_has (queue called_then) ''[1]'')"
  by (simp add: exec_defs)

end
